theory Spec2Isabelle
  imports
    Complex_Main
    "HOL-Library.Multiset"
    "HOL-Library.Product_Lexorder"
    "HOL-Library.Sublist"
    "HOL-Library.Word"
begin

section \<open>Identifiers, times and records\<close>

text \<open>
  A \<open>cell_member_type\<close> is the pair \<open>(gid, index)\<close> of \<^verbatim>\<open>src/python/identifiers.cpp\<close>.
  Identifiers and sizes (\<open>cell_gid_type\<close>, \<open>cell_lid_type\<close>, \<open>cell_size_type\<close>) are
  declared in \<^verbatim>\<open>arbor/common_types.hpp\<close>, which is not among the sources; they are natural
  numbers here.

  Modelled from the spec: the comparison operators of \<open>cell_member_type\<close> (declared in
  \<^verbatim>\<open>arbor/common_types.hpp\<close>): the total order is lexicographic by \<open>(gid, index)\<close>.
\<close>

datatype cell_member_type = cell_member_type (gid: nat) (index: nat)

instantiation cell_member_type :: linorder
begin

definition less_eq_cell_member_type :: "cell_member_type \<Rightarrow> cell_member_type \<Rightarrow> bool" where
  "less_eq_cell_member_type a b = (gid a < gid b \<or> (gid a = gid b \<and> index a \<le> index b))"

definition less_cell_member_type :: "cell_member_type \<Rightarrow> cell_member_type \<Rightarrow> bool" where
  "less_cell_member_type a b = (gid a < gid b \<or> (gid a = gid b \<and> index a < index b))"

instance
  by standard
    (auto simp: less_eq_cell_member_type_def less_cell_member_type_def cell_member_type.expand)

end

text \<open>
  \<open>time_type\<close> is a floating-point type (its declaration is in
  \<^verbatim>\<open>arbor/common_types.hpp\<close>). A value is a finite number or the positive infinity of the
  type; finite values are real numbers (rounding is not modelled), and negative infinity
  and NaN, which no delay and no spike time may be, are left out.
\<close>

datatype time_type = Finite real | PosInf

instantiation time_type :: "{plus, linorder}"
begin

fun less_eq_time_type :: "time_type \<Rightarrow> time_type \<Rightarrow> bool" where
  "less_eq_time_type (Finite a) (Finite b) = (a \<le> b)"
| "less_eq_time_type (Finite a) PosInf = True"
| "less_eq_time_type PosInf (Finite b) = False"
| "less_eq_time_type PosInf PosInf = True"

fun less_time_type :: "time_type \<Rightarrow> time_type \<Rightarrow> bool" where
  "less_time_type (Finite a) (Finite b) = (a < b)"
| "less_time_type (Finite a) PosInf = True"
| "less_time_type PosInf (Finite b) = False"
| "less_time_type PosInf PosInf = False"

fun plus_time_type :: "time_type \<Rightarrow> time_type \<Rightarrow> time_type" where
  "plus_time_type (Finite a) (Finite b) = Finite (a + b)"
| "plus_time_type (Finite a) PosInf = PosInf"
| "plus_time_type PosInf b = PosInf"

instance
proof
  fix x y z :: time_type
  show "(x < y) = (x \<le> y \<and> \<not> y \<le> x)" by (cases x; cases y) auto
  show "x \<le> x" by (cases x) auto
  show "x \<le> y \<Longrightarrow> y \<le> z \<Longrightarrow> x \<le> z" by (cases x; cases y; cases z) auto
  show "x \<le> y \<Longrightarrow> y \<le> x \<Longrightarrow> x = y" by (cases x; cases y) auto
  show "x \<le> y \<or> y \<le> x" by (cases x; cases y) auto
qed

end

text \<open>A spike: \<open>s.source\<close> and \<open>s.time\<close>.\<close>

record spike =
  source :: cell_member_type
  time :: time_type

text \<open>
  The connection a recipe describes (\<open>c.source\<close>, \<open>c.dest\<close>, \<open>c.weight\<close>, \<open>c.delay\<close>
  in the constructor); the fields carry the prefix \<open>cc_\<close> to keep them apart from the
  fields of a spike.
\<close>

record cell_connection =
  cc_source :: cell_member_type
  cc_dest :: cell_member_type
  cc_weight :: real
  cc_delay :: time_type

text \<open>
  The connection the communicator stores, built as
  \<^verbatim>\<open>{c.source, c.dest, c.weight, c.delay, cell.index_on_domain}\<close>; the accessors
  \<open>source()\<close>, \<open>delay()\<close>, \<open>index_on_domain()\<close> are the fields with the prefix \<open>con_\<close>.
\<close>

record connection =
  con_source :: cell_member_type
  con_destination :: cell_member_type
  con_weight :: real
  con_delay :: time_type
  con_index_on_domain :: nat

text \<open>The delivered event \<open>(target_local_index, weight, time)\<close> of the spec.\<close>

record event =
  ev_target :: nat
  ev_weight :: real
  ev_time :: time_type

type_synonym pse_vector = "event list"

text \<open>
  Modelled from the spec: \<open>connection::make_event\<close> (\<^verbatim>\<open>connection.hpp\<close> is not among the
  sources). The event carries the local index of the target, the weight of the connection
  and the time \<open>spike.time + connection.delay\<close>, with no rounding or clamping.
\<close>

definition make_event :: "connection \<Rightarrow> spike \<Rightarrow> event" where
  "make_event cn s =
     \<lparr>ev_target = index (con_destination cn),
      ev_weight = con_weight cn,
      ev_time = time s + con_delay cn\<rparr>"

text \<open>
  A gathered vector: the flat values and the partition by domain (\<open>values()\<close> and
  \<open>partition()\<close>; \<open>partition\<close> is a constant of the list library, hence the prefix).
\<close>

record gathered_vector =
  gv_values :: "spike list"
  gv_partition :: "nat list"

text \<open>
  The private members of the communicator, without the handles \<open>distributed_\<close> and
  \<open>thread_pool_\<close>: what the distributed context does is an argument of the operations that
  use it. \<open>index_part_\<close> is a view of \<open>index_divisions_\<close>, and \<open>num_spikes_\<close> is a
  \<open>std::uint64_t\<close>.
\<close>

record communicator =
  num_local_cells :: nat
  num_local_groups :: nat
  num_domains :: nat
  connections :: "connection list"
  connection_part :: "nat list"
  index_divisions :: "nat list"
  num_spikes :: "64 word"

text \<open>
  What the C++ leaves undefined is an error of the model: a failed \<open>arb_assert\<close>, an
  index or a range outside its vector (\<open>Queue_out_of_range\<close> when the vector is
  \<open>queues\<close>), and a binary search over a range that is not partitioned by the value
  searched for.
\<close>

datatype error = Assertion_failed | Out_of_range | Queue_out_of_range | Unsorted_range

section \<open>Event routing\<close>

text \<open>
  \<open>std::equal_range(first, last, value, comp)\<close> of the C++ standard library. The
  standard requires the range to be partitioned by \<open>comp(e, value)\<close> and by
  \<open>!comp(value, e)\<close>, and returns the furthermost positions up to which every element
  satisfies the one and the other. \<open>lt e\<close> is \<open>comp(e, value)\<close> and \<open>gt e\<close> is
  \<open>comp(value, e)\<close>.
\<close>

definition partitioned :: "('a \<Rightarrow> bool) \<Rightarrow> 'a list \<Rightarrow> bool" where
  "partitioned P xs = list_all (\<lambda>x. \<not> P x) (dropWhile P xs)"

definition equal_range :: "('a \<Rightarrow> bool) \<Rightarrow> ('a \<Rightarrow> bool) \<Rightarrow> 'a list \<Rightarrow> error + nat \<times> nat" where
  "equal_range lt gt xs =
     (if partitioned lt xs \<and> partitioned (\<lambda>e. \<not> gt e) xs
      then Inr (length (takeWhile lt xs), length (takeWhile (\<lambda>e. \<not> gt e) xs))
      else Inl Unsorted_range)"

text \<open>\<open>queues[i].push_back(e)\<close>; an index outside \<open>queues\<close> is undefined in C++.\<close>

definition push_back :: "nat \<Rightarrow> event \<Rightarrow> pse_vector list \<Rightarrow> error + pse_vector list" where
  "push_back i e queues =
     (if i < length queues then Inr (queues[i := queues ! i @ [e]])
      else Inl Queue_out_of_range)"

text \<open>
  The inner loops of \<open>make_event_queues\<close>:
  \<^verbatim>\<open>for (auto s: make_range(sources)) queues[cn->index_on_domain()].push_back(cn->make_event(s));\<close>
  and
  \<^verbatim>\<open>for (auto c: make_range(targets)) queues[c.index_on_domain()].push_back(c.make_event(*sp));\<close>
\<close>

fun push_sources :: "connection \<Rightarrow> spike list \<Rightarrow> pse_vector list \<Rightarrow> error + pse_vector list" where
  "push_sources cn [] queues = Inr queues"
| "push_sources cn (s # ss) queues =
     (case push_back (con_index_on_domain cn) (make_event cn s) queues of
        Inl e \<Rightarrow> Inl e
      | Inr queues' \<Rightarrow> push_sources cn ss queues')"

fun push_targets :: "connection list \<Rightarrow> spike \<Rightarrow> pse_vector list \<Rightarrow> error + pse_vector list" where
  "push_targets [] s queues = Inr queues"
| "push_targets (c # cs) s queues =
     (case push_back (con_index_on_domain c) (make_event c s) queues of
        Inl e \<Rightarrow> Inl e
      | Inr queues' \<Rightarrow> push_targets cs s queues')"

text \<open>
  The two while loops. The iterators \<open>cn\<close> and \<open>sp\<close> are the remaining connections and
  the remaining spikes; \<open>sp = sources.first\<close> drops the spikes in front of the range found,
  \<open>++cn\<close> drops the head. The spikes are compared with \<open>spike_pred\<close>.

  Modelled from the spec: the comparison of a connection and a \<open>cell_member_type\<close>
  (\<^verbatim>\<open>connection.hpp\<close> is not among the sources), which \<open>std::equal_range\<close> uses on the
  connections: it compares the source of the connection, as the search is for the
  connections of the spike's source.
\<close>

fun walk_connections ::
  "connection list \<Rightarrow> spike list \<Rightarrow> pse_vector list \<Rightarrow> error + pse_vector list" where
  "walk_connections [] sp queues = Inr queues"
| "walk_connections (cn # cns) sp queues =
     (if sp = [] then Inr queues
      else
        case equal_range (\<lambda>spk. source spk < con_source cn) (\<lambda>spk. con_source cn < source spk) sp of
          Inl e \<Rightarrow> Inl e
        | Inr (first, second) \<Rightarrow>
            (case push_sources cn (take (second - first) (drop first sp)) queues of
               Inl e \<Rightarrow> Inl e
             | Inr queues' \<Rightarrow> walk_connections cns (drop first sp) queues'))"

fun walk_spikes ::
  "connection list \<Rightarrow> spike list \<Rightarrow> pse_vector list \<Rightarrow> error + pse_vector list" where
  "walk_spikes cn [] queues = Inr queues"
| "walk_spikes cn (s # sps) queues =
     (if cn = [] then Inr queues
      else
        case equal_range (\<lambda>c. con_source c < source s) (\<lambda>c. source s < con_source c) cn of
          Inl e \<Rightarrow> Inl e
        | Inr (first, second) \<Rightarrow>
            (case push_targets (take (second - first) (drop first cn)) s queues of
               Inl e \<Rightarrow> Inl e
             | Inr queues' \<Rightarrow> walk_spikes (drop first cn) sps queues'))"

text \<open>\<open>util::subrange_view(seq, left, right)\<close>: the elements at \<open>[left, right)\<close>.\<close>

definition subrange_view :: "'a list \<Rightarrow> nat \<Rightarrow> nat \<Rightarrow> error + 'a list" where
  "subrange_view xs left right =
     (if left \<le> right \<and> right \<le> length xs then Inr (take (right - left) (drop left xs))
      else Inl Out_of_range)"

text \<open>The body of the loop over the domains, and the loop.\<close>

definition domain_step ::
  "communicator \<Rightarrow> gathered_vector \<Rightarrow> nat \<Rightarrow> pse_vector list \<Rightarrow> error + pse_vector list" where
  "domain_step c global_spikes d queues =
     (let sp = gv_partition global_spikes; cp = connection_part c in
      if \<not> (d + 1 < length cp \<and> d + 1 < length sp) then Inl Out_of_range
      else
        case subrange_view (connections c) (cp ! d) (cp ! (d + 1)) of
          Inl e \<Rightarrow> Inl e
        | Inr cons \<Rightarrow>
            (case subrange_view (gv_values global_spikes) (sp ! d) (sp ! (d + 1)) of
               Inl e \<Rightarrow> Inl e
             | Inr spks \<Rightarrow>
                 if length cons < length spks then walk_connections cons spks queues
                 else walk_spikes cons spks queues))"

fun domain_loop ::
  "communicator \<Rightarrow> gathered_vector \<Rightarrow> nat list \<Rightarrow> pse_vector list \<Rightarrow> error + pse_vector list" where
  "domain_loop c global_spikes [] queues = Inr queues"
| "domain_loop c global_spikes (d # ds) queues =
     (case domain_step c global_spikes d queues of
        Inl e \<Rightarrow> Inl e
      | Inr queues' \<Rightarrow> domain_loop c global_spikes ds queues')"

definition make_event_queues ::
  "communicator \<Rightarrow> gathered_vector \<Rightarrow> pse_vector list \<Rightarrow> error + pse_vector list" where
  "make_event_queues c global_spikes queues =
     (if length queues \<noteq> num_local_cells c then Inl Assertion_failed
      else domain_loop c global_spikes [0..<num_domains c] queues)"

section \<open>Construction of the connection table\<close>

text \<open>
  The recipe is its function \<open>connections_on\<close>; a group of the domain decomposition is
  its list of gids; the decomposition gives the groups, \<open>num_local_cells\<close> and
  \<open>gid_domain\<close> (prefix \<open>dd_\<close>: the communicator has a member \<open>num_local_cells_\<close> too).
  The number of domains \<open>n_domains\<close> is \<open>distributed_->size()\<close>; \<open>local_gids\<close> is the
  flat vector \<open>gids\<close> of the constructor.
\<close>

type_synonym recipe = "nat \<Rightarrow> cell_connection list"

record group_description =
  gids :: "nat list"

record domain_decomposition =
  dd_groups :: "group_description list"
  dd_num_local_cells :: nat
  dd_gid_domain :: "nat \<Rightarrow> nat"

text \<open>The local struct \<open>gid_info\<close> of the constructor (\<open>gid\<close>, \<open>index_on_domain\<close>, \<open>conns\<close>).\<close>

record gid_info =
  info_gid :: nat
  info_index_on_domain :: nat
  info_conns :: "cell_connection list"

text \<open>A for loop whose body may fail: the first failure ends the loop.\<close>

fun for_each :: "('a \<Rightarrow> 's \<Rightarrow> error + 's) \<Rightarrow> 'a list \<Rightarrow> 's \<Rightarrow> error + 's" where
  "for_each body [] st = Inr st"
| "for_each body (x # xs) st =
     (case body x st of Inl e \<Rightarrow> Inl e | Inr st' \<Rightarrow> for_each body xs st')"

text \<open>
  Modelled from the spec: \<open>algorithms::make_index\<close> (\<^verbatim>\<open>algorithms.hpp\<close> is not among the
  sources), the prefix sum of the counts: one entry more than the counts, the first
  entry 0. \<open>util::make_partition\<close> over the group sizes fills \<open>index_divisions_\<close> with the
  same prefix sum.
\<close>

fun partial_sums :: "nat \<Rightarrow> nat list \<Rightarrow> nat list" where
  "partial_sums acc [] = [acc]"
| "partial_sums acc (x # xs) = acc # partial_sums (acc + x) xs"

definition make_index :: "nat list \<Rightarrow> nat list" where
  "make_index counts = partial_sums 0 counts"

text \<open>
  Modelled from the spec: the order of two connections and \<open>util::sort\<close>
  (\<^verbatim>\<open>connection.hpp\<close> and \<^verbatim>\<open>util/rangeutil.hpp\<close> are not among the sources). The order is
  lexicographic on \<open>(source, dest, \<dots>)\<close>; the sort puts a range in non-decreasing order.
\<close>

definition connection_key :: "connection \<Rightarrow> cell_member_type \<times> cell_member_type" where
  "connection_key cn = (con_source cn, con_destination cn)"

definition sort_connections :: "connection list \<Rightarrow> connection list" where
  "sort_connections cons = sort_key connection_key cons"

text \<open>
  The body of the counting loop: \<^verbatim>\<open>src_domains.push_back(src); src_counts[src]++;\<close>.
  The state is \<open>(src_domains, src_counts)\<close>.
\<close>

definition count_source ::
  "(nat \<Rightarrow> nat) \<Rightarrow> cell_connection \<Rightarrow> nat list \<times> nat list \<Rightarrow> error + nat list \<times> nat list" where
  "count_source gid_domain con st =
     (case st of (src_domains, src_counts) \<Rightarrow>
        let src = gid_domain (gid (cc_source con)) in
        if src < length src_counts
        then Inr (src_domains @ [src], src_counts[src := src_counts ! src + 1])
        else Inl Out_of_range)"

text \<open>
  The body of the placing loop:
  \<^verbatim>\<open>const auto i = offsets[src_domains[pos]]++; connections_[i] = {...}; ++pos;\<close>.
  The state is \<open>(offsets, connections_, pos)\<close>.
\<close>

definition place_connection ::
  "nat list \<Rightarrow> nat \<Rightarrow> cell_connection \<Rightarrow> nat list \<times> connection list \<times> nat \<Rightarrow>
   error + nat list \<times> connection list \<times> nat" where
  "place_connection src_domains index_on_domain c st =
     (case st of (offsets, conns, pos) \<Rightarrow>
        if pos < length src_domains \<and> src_domains ! pos < length offsets
           \<and> offsets ! (src_domains ! pos) < length conns
        then
          let i = offsets ! (src_domains ! pos) in
          Inr (offsets[src_domains ! pos := i + 1],
               conns[i := \<lparr>con_source = cc_source c, con_destination = cc_dest c,
                           con_weight = cc_weight c, con_delay = cc_delay c,
                           con_index_on_domain = index_on_domain\<rparr>],
               pos + 1)
        else Inl Out_of_range)"

text \<open>The body of the sorting loop: \<^verbatim>\<open>util::sort(util::subrange_view(connections_, cp[i], cp[i+1]))\<close>.\<close>

definition sort_domain :: "nat list \<Rightarrow> nat \<Rightarrow> connection list \<Rightarrow> error + connection list" where
  "sort_domain cp i conns =
     (if \<not> i + 1 < length cp then Inl Out_of_range
      else
        case subrange_view conns (cp ! i) (cp ! (i + 1)) of
          Inl e \<Rightarrow> Inl e
        | Inr sub \<Rightarrow> Inr (take (cp ! i) conns @ sort_connections sub @ drop (cp ! (i + 1)) conns))"

text \<open>
  What \<open>connections_.resize(n_cons)\<close> and \<open>gid_infos.resize(num_local_cells_)\<close> fill in.
  Every such connection is overwritten by the placing loop, and such a \<open>gid_info\<close> has no
  connections, so that its other members are never read.
\<close>

definition default_connection :: connection where
  "default_connection =
     \<lparr>con_source = cell_member_type 0 0, con_destination = cell_member_type 0 0,
      con_weight = 0, con_delay = Finite 0, con_index_on_domain = 0\<rparr>"

definition default_gid_info :: gid_info where
  "default_gid_info = \<lparr>info_gid = 0, info_index_on_domain = 0, info_conns = []\<rparr>"

text \<open>
  The constructor. The parallel loops run here in the order of their indices: their
  iterations write to different elements. \<open>gid_infos[i]\<close> is outside \<open>gid_infos\<close> when the
  groups hold more gids than \<open>num_local_cells\<close>.
\<close>

definition communicator_ctor ::
  "recipe \<Rightarrow> domain_decomposition \<Rightarrow> nat \<Rightarrow> error + communicator" where
  "communicator_ctor connections_on dom_dec n_domains =
     (let local_gids = concat (map gids (dd_groups dom_dec));
          n = dd_num_local_cells dom_dec
      in
      if n < length local_gids then Inl Out_of_range
      else
        let gid_infos =
              map (\<lambda>i. \<lparr>info_gid = local_gids ! i, info_index_on_domain = i,
                         info_conns = connections_on (local_gids ! i)\<rparr>) [0..<length local_gids]
              @ replicate (n - length local_gids) default_gid_info;
            n_cons = sum_list (map (\<lambda>g. length (info_conns g)) gid_infos)
        in
        case for_each (\<lambda>g. for_each (count_source (dd_gid_domain dom_dec)) (info_conns g))
               gid_infos ([], replicate n_domains 0) of
          Inl e \<Rightarrow> Inl e
        | Inr (src_domains, src_counts) \<Rightarrow>
            let cp = make_index src_counts in
            (case for_each
                    (\<lambda>cell. for_each (place_connection src_domains (info_index_on_domain cell))
                       (info_conns cell))
                    gid_infos (cp, replicate n_cons default_connection, 0) of
               Inl e \<Rightarrow> Inl e
             | Inr (offsets, conns, pos) \<Rightarrow>
                 (case for_each (sort_domain cp) [0..<n_domains] conns of
                    Inl e \<Rightarrow> Inl e
                  | Inr sorted_conns \<Rightarrow>
                      Inr \<lparr>num_local_cells = n,
                           num_local_groups = length (dd_groups dom_dec),
                           num_domains = n_domains,
                           connections = sorted_conns,
                           connection_part = cp,
                           index_divisions =
                             make_index (map (\<lambda>g. length (gids g)) (dd_groups dom_dec)),
                           num_spikes = 0\<rparr>)))"

text \<open>\<open>group_queue_range\<close>: the pair \<open>index_part_[i]\<close>.\<close>

definition group_queue_range :: "communicator \<Rightarrow> nat \<Rightarrow> error + nat \<times> nat" where
  "group_queue_range c i =
     (if i < num_local_groups c then Inr (index_divisions c ! i, index_divisions c ! (i + 1))
      else Inl Assertion_failed)"

section \<open>Minimum delay, exchange and the spike counter\<close>





text \<open>
  Modelled from the spec: \<open>util::sort_by\<close> with the key \<open>s.source\<close>
  (\<^verbatim>\<open>util/rangeutil.hpp\<close>): the spikes in non-decreasing order of the source.
\<close>

definition sort_by_source :: "spike list \<Rightarrow> spike list" where
  "sort_by_source spikes = sort_key source spikes"

text \<open>
  \<open>exchange\<close>; \<open>gather_spikes\<close> is the collective of the distributed context, and the
  global spike count \<open>global_spikes.size()\<close> is added to the 64-bit counter.
\<close>

definition exchange ::
  "(spike list \<Rightarrow> gathered_vector) \<Rightarrow> spike list \<Rightarrow> communicator \<Rightarrow>
   gathered_vector \<times> communicator" where
  "exchange gather_spikes local_spikes c =
     (let sorted_spikes = sort_by_source local_spikes;
          global_spikes = gather_spikes sorted_spikes
      in (global_spikes,
          c\<lparr>num_spikes := num_spikes c + of_nat (length (gv_values global_spikes))\<rparr>))"

text \<open>
  Modelled from the spec: \<open>gather_spikes\<close> of the distributed transport: the values are
  the contributions of the domains one after the other, each in the order it was given
  in, and the partition is the prefix sum of their sizes.
\<close>

definition gather_spikes :: "spike list list \<Rightarrow> gathered_vector" where
  "gather_spikes contributions =
     \<lparr>gv_values = concat contributions, gv_partition = make_index (map length contributions)\<rparr>"

text \<open>
  All the domains enter \<open>exchange\<close>, domain \<open>d\<close> with the spikes \<open>locals ! d\<close>: what
  domain \<open>d\<close> is handed back. The other domains contribute their spikes as their own
  \<open>exchange\<close> sorted them.
\<close>

definition exchange_on ::
  "spike list list \<Rightarrow> communicator list \<Rightarrow> nat \<Rightarrow> gathered_vector \<times> communicator" where
  "exchange_on locals cs d =
     exchange (\<lambda>mine. gather_spikes ((map sort_by_source locals)[d := mine])) (locals ! d) (cs ! d)"

text \<open>
  A sequence of calls of \<open>exchange\<close> on one communicator, each with what the transport
  does at that call and the local spikes: the gathered vectors returned, and the
  communicator after the last call.
\<close>

fun exchanges ::
  "((spike list \<Rightarrow> gathered_vector) \<times> spike list) list \<Rightarrow> communicator \<Rightarrow>
   gathered_vector list \<times> communicator" where
  "exchanges [] c = ([], c)"
| "exchanges ((gather, local_spikes) # calls) c =
     (case exchange gather local_spikes c of
        (global_spikes, c') \<Rightarrow>
          (case exchanges calls c' of (rest, c'') \<Rightarrow> (global_spikes # rest, c'')))"

definition reset :: "communicator \<Rightarrow> communicator" where
  "reset c = c\<lparr>num_spikes := 0\<rparr>"

section \<open>Specification: slices, matched pairs and invariants\<close>

text \<open>The slice of domain \<open>d\<close>: the elements at \<open>[part ! d, part ! (d + 1))\<close>.\<close>

definition slice :: "nat list \<Rightarrow> 'a list \<Rightarrow> nat \<Rightarrow> 'a list" where
  "slice part xs d = take (part ! (d + 1) - part ! d) (drop (part ! d) xs)"

definition connection_slice :: "communicator \<Rightarrow> nat \<Rightarrow> connection list" where
  "connection_slice c d = slice (connection_part c) (connections c) d"

definition spike_slice :: "gathered_vector \<Rightarrow> nat \<Rightarrow> spike list" where
  "spike_slice gs d = slice (gv_partition gs) (gv_values gs) d"

text \<open>
  The queues after one event per pair \<open>(connection, spike)\<close> of \<open>ps\<close> has been appended,
  in the order of \<open>ps\<close>, to the queue at the connection's \<open>index_on_domain\<close>.
\<close>

definition deliver :: "(connection \<times> spike) list \<Rightarrow> pse_vector list \<Rightarrow> pse_vector list" where
  "deliver ps queues =
     map (\<lambda>i. queues ! i @
            map (\<lambda>(cn, s). make_event cn s) (filter (\<lambda>(cn, s). con_index_on_domain cn = i) ps))
       [0..<length queues]"

text \<open>
  The pairs of a connection and a spike with equal sources: connection by connection,
  spike by spike, and as a selection from all pairs.
\<close>

definition pairs_by_connection :: "connection list \<Rightarrow> spike list \<Rightarrow> (connection \<times> spike) list" where
  "pairs_by_connection cons spks =
     concat (map (\<lambda>cn. map (Pair cn) (filter (\<lambda>s. source s = con_source cn) spks)) cons)"

definition pairs_by_spike :: "connection list \<Rightarrow> spike list \<Rightarrow> (connection \<times> spike) list" where
  "pairs_by_spike cons spks =
     concat (map (\<lambda>s. map (\<lambda>cn. (cn, s)) (filter (\<lambda>cn. con_source cn = source s) cons)) spks)"

definition matching_pairs :: "connection list \<Rightarrow> spike list \<Rightarrow> (connection \<times> spike) list" where
  "matching_pairs cons spks =
     filter (\<lambda>(cn, s). con_source cn = source s) (List.product cons spks)"

text \<open>
  The pairs \<open>make_event_queues\<close> finds for domain \<open>d\<close> and for all the domains, when
  \<open>connections_outer d\<close> says which loop runs for domain \<open>d\<close>; the code runs the loop
  over the connections when there are fewer connections than spikes.
\<close>

definition domain_pairs_by ::
  "(nat \<Rightarrow> bool) \<Rightarrow> communicator \<Rightarrow> gathered_vector \<Rightarrow> nat \<Rightarrow> (connection \<times> spike) list" where
  "domain_pairs_by connections_outer c gs d =
     (if connections_outer d
      then pairs_by_connection (connection_slice c d) (spike_slice gs d)
      else pairs_by_spike (connection_slice c d) (spike_slice gs d))"

definition matched_pairs_by ::
  "(nat \<Rightarrow> bool) \<Rightarrow> communicator \<Rightarrow> gathered_vector \<Rightarrow> (connection \<times> spike) list" where
  "matched_pairs_by connections_outer c gs =
     concat (map (domain_pairs_by connections_outer c gs) [0..<num_domains c])"

definition fewer_connections :: "communicator \<Rightarrow> gathered_vector \<Rightarrow> nat \<Rightarrow> bool" where
  "fewer_connections c gs d = (length (connection_slice c d) < length (spike_slice gs d))"

definition matched_pairs :: "communicator \<Rightarrow> gathered_vector \<Rightarrow> (connection \<times> spike) list" where
  "matched_pairs c gs = matched_pairs_by (fewer_connections c gs) c gs"

text \<open>
  What the constructor computes, written out: the flat vector of the local gids, the
  \<open>gid_infos\<close>, the connections of the recipe in the order the loops visit them (each with
  the \<open>gid_info\<close> of its cell), the domain of the source of such a connection, the
  connection stored for it, and the connections of the sources of domain \<open>d\<close>.
\<close>

definition local_gids :: "domain_decomposition \<Rightarrow> nat list" where
  "local_gids dom_dec = concat (map gids (dd_groups dom_dec))"

definition gid_infos_of :: "recipe \<Rightarrow> domain_decomposition \<Rightarrow> gid_info list" where
  "gid_infos_of connections_on dom_dec =
     map (\<lambda>i. \<lparr>info_gid = local_gids dom_dec ! i, info_index_on_domain = i,
                info_conns = connections_on (local_gids dom_dec ! i)\<rparr>)
       [0..<length (local_gids dom_dec)]
     @ replicate (dd_num_local_cells dom_dec - length (local_gids dom_dec)) default_gid_info"

definition local_items :: "recipe \<Rightarrow> domain_decomposition \<Rightarrow> (gid_info \<times> cell_connection) list" where
  "local_items connections_on dom_dec =
     concat (map (\<lambda>g. map (Pair g) (info_conns g)) (gid_infos_of connections_on dom_dec))"

definition source_domain :: "domain_decomposition \<Rightarrow> gid_info \<times> cell_connection \<Rightarrow> nat" where
  "source_domain dom_dec it = dd_gid_domain dom_dec (gid (cc_source (snd it)))"

definition placed :: "gid_info \<times> cell_connection \<Rightarrow> connection" where
  "placed it =
     \<lparr>con_source = cc_source (snd it), con_destination = cc_dest (snd it),
      con_weight = cc_weight (snd it), con_delay = cc_delay (snd it),
      con_index_on_domain = info_index_on_domain (fst it)\<rparr>"

definition bucket ::
  "domain_decomposition \<Rightarrow> nat \<Rightarrow> (gid_info \<times> cell_connection) list \<Rightarrow>
   (gid_info \<times> cell_connection) list" where
  "bucket dom_dec d its = filter (\<lambda>it. source_domain dom_dec it = d) its"

definition bucket_table :: "recipe \<Rightarrow> domain_decomposition \<Rightarrow> nat \<Rightarrow> connection list list" where
  "bucket_table connections_on dom_dec n_domains =
     map (\<lambda>d. sort_connections (map placed (bucket dom_dec d (local_items connections_on dom_dec))))
       [0..<n_domains]"

text \<open>
  The state of the placing loop after the connections \<open>pre\<close> of all the connections
  \<open>its\<close>: every domain's range holds the connections placed so far, then the connections
  \<open>resize\<close> put there; every offset has moved by the number placed.
\<close>

definition filled ::
  "domain_decomposition \<Rightarrow> nat \<Rightarrow> (gid_info \<times> cell_connection) list \<Rightarrow>
   (gid_info \<times> cell_connection) list \<Rightarrow> connection list list" where
  "filled dom_dec n its pre =
     map (\<lambda>d. map placed (bucket dom_dec d pre) @
            replicate (length (bucket dom_dec d its) - length (bucket dom_dec d pre))
              default_connection)
       [0..<n]"

definition offsets_after ::
  "domain_decomposition \<Rightarrow> nat \<Rightarrow> (gid_info \<times> cell_connection) list \<Rightarrow>
   (gid_info \<times> cell_connection) list \<Rightarrow> nat list" where
  "offsets_after dom_dec n its pre =
     map (\<lambda>d. make_index (map (\<lambda>d. length (bucket dom_dec d its)) [0..<n]) ! d +
            length (bucket dom_dec d pre))
       [0..<Suc n]"

text \<open>
  When the constructor is defined (no more gids in the groups than \<open>num_local_cells\<close>,
  every source in a domain below \<open>n_domains\<close>), and the communicator it then builds.
\<close>

definition built_communicator :: "recipe \<Rightarrow> domain_decomposition \<Rightarrow> nat \<Rightarrow> communicator" where
  "built_communicator connections_on dom_dec n_domains =
     \<lparr>num_local_cells = dd_num_local_cells dom_dec,
      num_local_groups = length (dd_groups dom_dec),
      num_domains = n_domains,
      connections = concat (bucket_table connections_on dom_dec n_domains),
      connection_part = make_index (map length (bucket_table connections_on dom_dec n_domains)),
      index_divisions = make_index (map (\<lambda>g. length (gids g)) (dd_groups dom_dec)),
      num_spikes = 0\<rparr>"

definition ctor_defined :: "recipe \<Rightarrow> domain_decomposition \<Rightarrow> nat \<Rightarrow> bool" where
  "ctor_defined connections_on dom_dec n_domains =
     (length (local_gids dom_dec) \<le> dd_num_local_cells dom_dec \<and>
      (\<forall>it\<in>set (local_items connections_on dom_dec). source_domain dom_dec it < n_domains))"

text \<open>
  A partition of \<open>m\<close> elements over \<open>n\<close> domains; a gathered vector as \<open>exchange\<close>
  returns it (a partition over the domains, every slice sorted by source).
\<close>

definition partition_ok :: "nat \<Rightarrow> nat list \<Rightarrow> nat \<Rightarrow> bool" where
  "partition_ok n part m =
     (length part = n + 1 \<and> sorted part \<and> part ! 0 = 0 \<and> part ! n = m)"

definition gathered_ok :: "nat \<Rightarrow> gathered_vector \<Rightarrow> bool" where
  "gathered_ok n gs =
     (partition_ok n (gv_partition gs) (length (gv_values gs)) \<and>
      (\<forall>d<n. sorted (map source (spike_slice gs d))))"

definition communicator_ok :: "communicator \<Rightarrow> bool" where
  "communicator_ok c =
     (partition_ok (num_domains c) (connection_part c) (length (connections c)) \<and>
      (\<forall>d<num_domains c. sorted (map con_source (connection_slice c d))) \<and>
      (\<forall>cn\<in>set (connections c). con_index_on_domain cn < num_local_cells c))"

text \<open>
  \<open>make_event_queues\<close> with the strategy of every domain given: \<open>connections_outer d\<close>
  takes the place of \<open>cons.size() < spks.size()\<close>.
\<close>

definition domain_step_by ::
  "(nat \<Rightarrow> bool) \<Rightarrow> communicator \<Rightarrow> gathered_vector \<Rightarrow> nat \<Rightarrow> pse_vector list \<Rightarrow>
   error + pse_vector list" where
  "domain_step_by connections_outer c global_spikes d queues =
     (let sp = gv_partition global_spikes; cp = connection_part c in
      if \<not> (d + 1 < length cp \<and> d + 1 < length sp) then Inl Out_of_range
      else
        case subrange_view (connections c) (cp ! d) (cp ! (d + 1)) of
          Inl e \<Rightarrow> Inl e
        | Inr cons \<Rightarrow>
            (case subrange_view (gv_values global_spikes) (sp ! d) (sp ! (d + 1)) of
               Inl e \<Rightarrow> Inl e
             | Inr spks \<Rightarrow>
                 if connections_outer d then walk_connections cons spks queues
                 else walk_spikes cons spks queues))"

definition make_event_queues_by ::
  "(nat \<Rightarrow> bool) \<Rightarrow> communicator \<Rightarrow> gathered_vector \<Rightarrow> pse_vector list \<Rightarrow>
   error + pse_vector list" where
  "make_event_queues_by connections_outer c global_spikes queues =
     (if length queues \<noteq> num_local_cells c then Inl Assertion_failed
      else for_each (domain_step_by connections_outer c global_spikes) [0..<num_domains c] queues)"

text \<open>The sum of the sizes of gathered vectors.\<close>

definition spike_count :: "gathered_vector list \<Rightarrow> nat" where
  "spike_count gvs = sum_list (map (\<lambda>g. length (gv_values g)) gvs)"

section \<open>An example network\<close>

text \<open>
  The second of two domains holds the cells 2 and 3, one group each; the cells 0 and 1
  are on the first domain. Cell 2 has three connections, cell 3 has two.
\<close>

definition example_recipe :: recipe where
  "example_recipe g =
     (if g = 2 then
        [\<lparr>cc_source = cell_member_type 0 0, cc_dest = cell_member_type 2 0, cc_weight = 1, cc_delay = Finite 1\<rparr>,
         \<lparr>cc_source = cell_member_type 3 0, cc_dest = cell_member_type 2 1, cc_weight = 2, cc_delay = Finite 2\<rparr>,
         \<lparr>cc_source = cell_member_type 0 0, cc_dest = cell_member_type 2 2, cc_weight = 3, cc_delay = Finite 3\<rparr>]
      else if g = 3 then
        [\<lparr>cc_source = cell_member_type 1 0, cc_dest = cell_member_type 3 0, cc_weight = 4, cc_delay = Finite 5\<rparr>,
         \<lparr>cc_source = cell_member_type 2 0, cc_dest = cell_member_type 3 1, cc_weight = 5, cc_delay = Finite 4\<rparr>]
      else [])"

definition example_decomposition :: domain_decomposition where
  "example_decomposition =
     \<lparr>dd_groups = [\<lparr>gids = [2]\<rparr>, \<lparr>gids = [3]\<rparr>], dd_num_local_cells = 2,
      dd_gid_domain = (\<lambda>g. if g < 2 then 0 else 1)\<rparr>"

definition example_communicator :: communicator where
  "example_communicator =
     \<lparr>num_local_cells = 2, num_local_groups = 2, num_domains = 2,
      connections =
        [\<lparr>con_source = cell_member_type 0 0, con_destination = cell_member_type 2 0,
          con_weight = 1, con_delay = Finite 1, con_index_on_domain = 0\<rparr>,
         \<lparr>con_source = cell_member_type 0 0, con_destination = cell_member_type 2 2,
          con_weight = 3, con_delay = Finite 3, con_index_on_domain = 0\<rparr>,
         \<lparr>con_source = cell_member_type 1 0, con_destination = cell_member_type 3 0,
          con_weight = 4, con_delay = Finite 5, con_index_on_domain = 1\<rparr>,
         \<lparr>con_source = cell_member_type 2 0, con_destination = cell_member_type 3 1,
          con_weight = 5, con_delay = Finite 4, con_index_on_domain = 1\<rparr>,
         \<lparr>con_source = cell_member_type 3 0, con_destination = cell_member_type 2 1,
          con_weight = 2, con_delay = Finite 2, con_index_on_domain = 0\<rparr>],
      connection_part = [0, 3, 5], index_divisions = [0, 1, 2], num_spikes = 0\<rparr>"

text \<open>
  The first domain contributes two spikes of \<open>(0,0)\<close> and one of \<open>(1,0)\<close>, the second
  three spikes of \<open>(3,0)\<close>: for domain 0 there are as many connections as spikes, for
  domain 1 fewer connections than spikes.
\<close>

definition example_spikes :: gathered_vector where
  "example_spikes =
     \<lparr>gv_values =
        [\<lparr>source = cell_member_type 0 0, time = Finite 10\<rparr>,
         \<lparr>source = cell_member_type 0 0, time = Finite 12\<rparr>,
         \<lparr>source = cell_member_type 1 0, time = Finite 11\<rparr>,
         \<lparr>source = cell_member_type 3 0, time = Finite 7\<rparr>,
         \<lparr>source = cell_member_type 3 0, time = Finite 8\<rparr>,
         \<lparr>source = cell_member_type 3 0, time = Finite 9\<rparr>],
      gv_partition = [0, 3, 6]\<rparr>"

text \<open>
  One event is in the first queue before the call. The queues after \<open>make_event_queues\<close>,
  and the queues when every domain is walked connection by connection.
\<close>

definition example_event :: event where
  "example_event = \<lparr>ev_target = 5, ev_weight = 1, ev_time = Finite 2\<rparr>"

definition example_queues :: "pse_vector list" where
  "example_queues =
     [[example_event,
       \<lparr>ev_target = 0, ev_weight = 1, ev_time = Finite 11\<rparr>,
       \<lparr>ev_target = 2, ev_weight = 3, ev_time = Finite 13\<rparr>,
       \<lparr>ev_target = 0, ev_weight = 1, ev_time = Finite 13\<rparr>,
       \<lparr>ev_target = 2, ev_weight = 3, ev_time = Finite 15\<rparr>,
       \<lparr>ev_target = 1, ev_weight = 2, ev_time = Finite 9\<rparr>,
       \<lparr>ev_target = 1, ev_weight = 2, ev_time = Finite 10\<rparr>,
       \<lparr>ev_target = 1, ev_weight = 2, ev_time = Finite 11\<rparr>],
      [\<lparr>ev_target = 0, ev_weight = 4, ev_time = Finite 16\<rparr>]]"

definition example_queues_connections_outer :: "pse_vector list" where
  "example_queues_connections_outer =
     [[example_event,
       \<lparr>ev_target = 0, ev_weight = 1, ev_time = Finite 11\<rparr>,
       \<lparr>ev_target = 0, ev_weight = 1, ev_time = Finite 13\<rparr>,
       \<lparr>ev_target = 2, ev_weight = 3, ev_time = Finite 13\<rparr>,
       \<lparr>ev_target = 2, ev_weight = 3, ev_time = Finite 15\<rparr>,
       \<lparr>ev_target = 1, ev_weight = 2, ev_time = Finite 9\<rparr>,
       \<lparr>ev_target = 1, ev_weight = 2, ev_time = Finite 10\<rparr>,
       \<lparr>ev_target = 1, ev_weight = 2, ev_time = Finite 11\<rparr>],
      [\<lparr>ev_target = 0, ev_weight = 4, ev_time = Finite 16\<rparr>]]"

text \<open>
  Gathered spikes whose first slice is not sorted by source, and the two fixed choices of
  a loop: over the connections for every domain, over the spikes for every domain.
\<close>

definition unsorted_spikes :: gathered_vector where
  "unsorted_spikes =
     \<lparr>gv_values =
        [\<lparr>source = cell_member_type 1 0, time = Finite 11\<rparr>,
         \<lparr>source = cell_member_type 0 0, time = Finite 10\<rparr>],
      gv_partition = [0, 2, 2]\<rparr>"

definition always_connections :: "nat \<Rightarrow> bool" where
  "always_connections d = True"

definition always_spikes :: "nat \<Rightarrow> bool" where
  "always_spikes d = False"

text \<open>
  The spikes the two domains hand to \<open>exchange\<close>, those of the first domain not yet in
  order; and spikes for which the gathered array is not sorted as a whole.
\<close>

definition example_locals :: "spike list list" where
  "example_locals =
     [[\<lparr>source = cell_member_type 0 0, time = Finite 10\<rparr>,
       \<lparr>source = cell_member_type 1 0, time = Finite 11\<rparr>,
       \<lparr>source = cell_member_type 0 0, time = Finite 12\<rparr>],
      [\<lparr>source = cell_member_type 3 0, time = Finite 7\<rparr>,
       \<lparr>source = cell_member_type 3 0, time = Finite 8\<rparr>,
       \<lparr>source = cell_member_type 3 0, time = Finite 9\<rparr>]]"

definition crossing_locals :: "spike list list" where
  "crossing_locals =
     [[\<lparr>source = cell_member_type 5 0, time = Finite 1\<rparr>],
      [\<lparr>source = cell_member_type 1 0, time = Finite 2\<rparr>]]"

text \<open>
  The transport as the second domain sees it when the first domain contributes the
  sorted spikes of \<open>example_locals\<close>; and a transport through which the first domain
  contributes \<open>2^32\<close> spikes at every call.
\<close>

definition example_transport :: "spike list \<Rightarrow> gathered_vector" where
  "example_transport mine = gather_spikes [sort_by_source (example_locals ! 0), mine]"

definition busy_transport :: "spike list \<Rightarrow> gathered_vector" where
  "busy_transport mine =
     gather_spikes [replicate (2 ^ 32) \<lparr>source = cell_member_type 0 0, time = Finite 1\<rparr>, mine]"





section \<open>Sorted ranges and binary search\<close>

lemma partitioned_Cons:
  "partitioned P (x # xs) = (if P x then partitioned P xs else list_all (\<lambda>y. \<not> P y) xs)"
  by (simp add: partitioned_def)

lemma partitioned_sorted_less:
  fixes f :: "'a \<Rightarrow> 'k::linorder"
  shows "sorted (map f xs) \<Longrightarrow> partitioned (\<lambda>e. f e < v) xs"
proof (induction xs)
  case Nil
  then show ?case by (simp add: partitioned_def)
next
  case (Cons x xs)
  have "\<not> f x < v \<Longrightarrow> list_all (\<lambda>y. \<not> f y < v) xs"
    using Cons.prems by (fastforce simp: list_all_iff)
  then show ?case using Cons by (simp add: partitioned_Cons)
qed

lemma partitioned_sorted_not_greater:
  fixes f :: "'a \<Rightarrow> 'k::linorder"
  shows "sorted (map f xs) \<Longrightarrow> partitioned (\<lambda>e. \<not> v < f e) xs"
proof (induction xs)
  case Nil
  then show ?case by (simp add: partitioned_def)
next
  case (Cons x xs)
  have "v < f x \<Longrightarrow> list_all (\<lambda>y. v < f y) xs"
    using Cons.prems by (fastforce simp: list_all_iff)
  then show ?case using Cons by (simp add: partitioned_Cons)
qed

lemma equal_range_sorted:
  fixes f :: "'a \<Rightarrow> 'k::linorder"
  assumes "sorted (map f xs)"
  shows "equal_range (\<lambda>e. f e < v) (\<lambda>e. v < f e) xs =
    Inr (length (takeWhile (\<lambda>e. f e < v) xs), length (takeWhile (\<lambda>e. \<not> v < f e) xs))"
  unfolding equal_range_def
  using partitioned_sorted_less [OF assms, of v] partitioned_sorted_not_greater [OF assms, of v]
  by simp

lemma takeWhile_less_nil:
  fixes f :: "'a \<Rightarrow> 'k::linorder"
  shows "\<forall>x\<in>set xs. v \<le> f x \<Longrightarrow> takeWhile (\<lambda>e. f e < v) xs = []"
  by (cases xs) (simp_all add: not_less)

lemma range_is_filter:
  fixes f :: "'a \<Rightarrow> 'k::linorder"
  shows "sorted (map f xs) \<Longrightarrow>
    take (length (takeWhile (\<lambda>e. \<not> v < f e) xs) - length (takeWhile (\<lambda>e. f e < v) xs))
      (drop (length (takeWhile (\<lambda>e. f e < v) xs)) xs) = filter (\<lambda>e. f e = v) xs"
proof (induction xs)
  case Nil
  then show ?case by simp
next
  case (Cons x xs)
  have srt: "sorted (map f xs)" and ge: "\<forall>y\<in>set xs. f x \<le> f y"
    using Cons.prems by simp_all
  note IH = Cons.IH [OF srt]
  consider (lt) "f x < v" | (eq) "f x = v" | (gt) "v < f x"
    using less_linear by blast
  then show ?case
  proof cases
    case lt
    then have "\<not> v < f x" "f x \<noteq> v" by simp_all
    then show ?thesis using IH lt by simp
  next
    case eq
    have "takeWhile (\<lambda>e. f e < v) xs = []"
      using ge eq by (intro takeWhile_less_nil) simp
    then show ?thesis using IH eq by simp
  next
    case gt
    have "filter (\<lambda>e. f e = v) xs = []"
      using ge gt by (fastforce simp: filter_empty_conv)
    moreover have "\<not> f x < v" "f x \<noteq> v" using gt by simp_all
    ultimately show ?thesis using gt by simp
  qed
qed

lemma filter_drop_takeWhile:
  assumes a: "\<And>x. P x \<Longrightarrow> \<not> Q x"
  shows "filter Q (drop (length (takeWhile P xs)) xs) = filter Q xs"
proof -
  have "filter Q (takeWhile P xs) = []"
    using a by (simp add: filter_empty_conv) (meson set_takeWhileD)
  moreover have "filter Q xs = filter Q (takeWhile P xs) @ filter Q (dropWhile P xs)"
    by (metis filter_append takeWhile_dropWhile_id)
  ultimately show ?thesis by (simp add: dropWhile_eq_drop)
qed

section \<open>Delivering the matched pairs\<close>

lemma length_deliver: "length (deliver ps qs) = length qs"
  by (simp add: deliver_def)

lemma deliver_Nil: "deliver [] qs = qs"
  by (simp add: deliver_def map_nth)

lemma deliver_nth:
  "i < length qs \<Longrightarrow>
   deliver ps qs ! i =
     qs ! i @ map (\<lambda>(cn, s). make_event cn s) (filter (\<lambda>(cn, s). con_index_on_domain cn = i) ps)"
  by (simp add: deliver_def)

lemma push_back_deliver:
  assumes "con_index_on_domain cn < length qs"
  shows "push_back (con_index_on_domain cn) (make_event cn s) (deliver ps qs) =
    Inr (deliver (ps @ [(cn, s)]) qs)"
proof -
  have "(deliver ps qs)[con_index_on_domain cn :=
          deliver ps qs ! con_index_on_domain cn @ [make_event cn s]] =
        deliver (ps @ [(cn, s)]) qs"
    using assms
    by (intro nth_equalityI) (auto simp: length_deliver deliver_nth nth_list_update)
  then show ?thesis using assms by (simp add: push_back_def length_deliver)
qed

lemma push_sources_deliver:
  "con_index_on_domain cn < length qs \<Longrightarrow>
   push_sources cn ss (deliver ps qs) = Inr (deliver (ps @ map (Pair cn) ss) qs)"
proof (induction ss arbitrary: ps)
  case Nil
  then show ?case by simp
next
  case (Cons s ss)
  show ?case
    using Cons.IH [OF Cons.prems, of "ps @ [(cn, s)]"]
    by (simp add: push_back_deliver [OF Cons.prems])
qed

lemma push_targets_deliver:
  "\<forall>c\<in>set cs. con_index_on_domain c < length qs \<Longrightarrow>
   push_targets cs s (deliver ps qs) = Inr (deliver (ps @ map (\<lambda>c. (c, s)) cs) qs)"
proof (induction cs arbitrary: ps)
  case Nil
  then show ?case by simp
next
  case (Cons c cs)
  have c: "con_index_on_domain c < length qs" and cs: "\<forall>c\<in>set cs. con_index_on_domain c < length qs"
    using Cons.prems by simp_all
  show ?case
    using Cons.IH [OF cs, of "ps @ [(c, s)]"]
    by (simp add: push_back_deliver [OF c])
qed

lemma pairs_by_connection_Nil [simp]: "pairs_by_connection cons [] = []"
  by (simp add: pairs_by_connection_def)

lemma pairs_by_spike_Nil [simp]: "pairs_by_spike [] spks = []"
  by (simp add: pairs_by_spike_def)

lemma sorted_map_drop: "sorted (map f xs) \<Longrightarrow> sorted (map f (drop n xs))"
  by (simp add: drop_map [symmetric])

lemma walk_connections_deliver:
  "sorted (map con_source cons) \<Longrightarrow> sorted (map source sp) \<Longrightarrow>
   \<forall>cn\<in>set cons. con_index_on_domain cn < length qs \<Longrightarrow>
   walk_connections cons sp (deliver ps qs) = Inr (deliver (ps @ pairs_by_connection cons sp) qs)"
proof (induction cons arbitrary: sp ps)
  case Nil
  then show ?case by (simp add: pairs_by_connection_def)
next
  case (Cons cn cns)
  show ?case
  proof (cases "sp = []")
    case True
    then show ?thesis by simp
  next
    case False
    define v where "v = con_source cn"
    define l where "l = length (takeWhile (\<lambda>e. source e < v) sp)"
    define u where "u = length (takeWhile (\<lambda>e. \<not> v < source e) sp)"
    have er: "equal_range (\<lambda>spk. source spk < con_source cn) (\<lambda>spk. con_source cn < source spk) sp
        = Inr (l, u)"
      using equal_range_sorted [OF Cons.prems(2), of v] by (simp add: v_def l_def u_def)
    have rng: "take (u - l) (drop l sp) = filter (\<lambda>e. source e = v) sp"
      using range_is_filter [OF Cons.prems(2), of v] by (simp add: l_def u_def)
    have idx: "con_index_on_domain cn < length qs"
      and idxs: "\<forall>c\<in>set cns. con_index_on_domain c < length qs"
      using Cons.prems(3) by simp_all
    have srt: "sorted (map con_source cns)" and ge: "\<forall>c\<in>set cns. v \<le> con_source c"
      using Cons.prems(1) by (simp_all add: v_def)
    have flt: "filter (\<lambda>s. source s = con_source c) (drop l sp) =
        filter (\<lambda>s. source s = con_source c) sp" if "c \<in> set cns" for c
    proof -
      have "v \<le> con_source c" using ge that by simp
      then show ?thesis unfolding l_def by (intro filter_drop_takeWhile) auto
    qed
    have rest: "pairs_by_connection cns (drop l sp) = pairs_by_connection cns sp"
    proof -
      have "map (\<lambda>cn. map (Pair cn) (filter (\<lambda>s. source s = con_source cn) (drop l sp))) cns =
          map (\<lambda>cn. map (Pair cn) (filter (\<lambda>s. source s = con_source cn) sp)) cns"
        by (rule map_cong [OF refl]) (simp add: flt)
      then show ?thesis by (simp only: pairs_by_connection_def)
    qed
    have step: "push_sources cn (take (u - l) (drop l sp)) (deliver ps qs) =
        Inr (deliver (ps @ map (Pair cn) (filter (\<lambda>e. source e = v) sp)) qs)"
      using push_sources_deliver [OF idx] rng by simp
    have "walk_connections cns (drop l sp)
            (deliver (ps @ map (Pair cn) (filter (\<lambda>e. source e = v) sp)) qs) =
          Inr (deliver ((ps @ map (Pair cn) (filter (\<lambda>e. source e = v) sp)) @
            pairs_by_connection cns (drop l sp)) qs)"
      using Cons.IH [OF srt sorted_map_drop [OF Cons.prems(2)] idxs] by simp
    then show ?thesis
      using False er step rest by (simp add: pairs_by_connection_def v_def)
  qed
qed

lemma walk_spikes_deliver:
  "sorted (map con_source cons) \<Longrightarrow> sorted (map source sp) \<Longrightarrow>
   \<forall>cn\<in>set cons. con_index_on_domain cn < length qs \<Longrightarrow>
   walk_spikes cons sp (deliver ps qs) = Inr (deliver (ps @ pairs_by_spike cons sp) qs)"
proof (induction sp arbitrary: cons ps)
  case Nil
  then show ?case by (simp add: pairs_by_spike_def)
next
  case (Cons s sps)
  show ?case
  proof (cases "cons = []")
    case True
    then show ?thesis by simp
  next
    case False
    define v where "v = source s"
    define l where "l = length (takeWhile (\<lambda>e. con_source e < v) cons)"
    define u where "u = length (takeWhile (\<lambda>e. \<not> v < con_source e) cons)"
    have er: "equal_range (\<lambda>c. con_source c < source s) (\<lambda>c. source s < con_source c) cons
        = Inr (l, u)"
      using equal_range_sorted [OF Cons.prems(1), of v] by (simp add: v_def l_def u_def)
    have rng: "take (u - l) (drop l cons) = filter (\<lambda>e. con_source e = v) cons"
      using range_is_filter [OF Cons.prems(1), of v] by (simp add: l_def u_def)
    have idx: "\<forall>c\<in>set (filter (\<lambda>e. con_source e = v) cons). con_index_on_domain c < length qs"
      and idxs: "\<forall>c\<in>set (drop l cons). con_index_on_domain c < length qs"
      using Cons.prems(3) by (auto dest: in_set_dropD)
    have srt: "sorted (map source sps)" and ge: "\<forall>x\<in>set sps. v \<le> source x"
      using Cons.prems(2) by (simp_all add: v_def)
    have flt: "filter (\<lambda>c. con_source c = source x) (drop l cons) =
        filter (\<lambda>c. con_source c = source x) cons" if "x \<in> set sps" for x
    proof -
      have "v \<le> source x" using ge that by simp
      then show ?thesis unfolding l_def by (intro filter_drop_takeWhile) auto
    qed
    have rest: "pairs_by_spike (drop l cons) sps = pairs_by_spike cons sps"
    proof -
      have "map (\<lambda>x. map (\<lambda>cn. (cn, x)) (filter (\<lambda>cn. con_source cn = source x) (drop l cons))) sps =
          map (\<lambda>x. map (\<lambda>cn. (cn, x)) (filter (\<lambda>cn. con_source cn = source x) cons)) sps"
        by (rule map_cong [OF refl]) (simp add: flt)
      then show ?thesis by (simp only: pairs_by_spike_def)
    qed
    have step: "push_targets (take (u - l) (drop l cons)) s (deliver ps qs) =
        Inr (deliver (ps @ map (\<lambda>c. (c, s)) (filter (\<lambda>e. con_source e = v) cons)) qs)"
      using push_targets_deliver [OF idx] rng by simp
    have "walk_spikes (drop l cons) sps
            (deliver (ps @ map (\<lambda>c. (c, s)) (filter (\<lambda>e. con_source e = v) cons)) qs) =
          Inr (deliver ((ps @ map (\<lambda>c. (c, s)) (filter (\<lambda>e. con_source e = v) cons)) @
            pairs_by_spike (drop l cons) sps) qs)"
      using Cons.IH [OF sorted_map_drop [OF Cons.prems(1)] srt idxs] by simp
    then show ?thesis
      using False er step rest by (simp add: pairs_by_spike_def v_def)
  qed
qed

lemma pairs_by_connection_product:
  "pairs_by_connection cons spks = matching_pairs cons spks"
proof (induction cons)
  case Nil
  then show ?case by (simp add: pairs_by_connection_def matching_pairs_def)
next
  case (Cons c cs)
  have "filter (\<lambda>(cn, s). con_source cn = source s) (map (Pair c) spks) =
      map (Pair c) (filter (\<lambda>s. source s = con_source c) spks)"
    by (induction spks) auto
  then show ?case
    using Cons by (simp add: pairs_by_connection_def matching_pairs_def)
qed

lemma product_Nil_right: "List.product xs [] = []"
  by (induction xs) simp_all

lemma mset_product_Cons_right:
  "mset (List.product xs (y # ys)) = mset (map (\<lambda>x. (x, y)) xs) + mset (List.product xs ys)"
  by (induction xs) simp_all

lemma mset_pairs_by_spike:
  "mset (pairs_by_spike cons spks) = mset (matching_pairs cons spks)"
proof (induction spks)
  case Nil
  then show ?case by (simp add: pairs_by_spike_def matching_pairs_def product_Nil_right)
next
  case (Cons s ss)
  have a: "filter (\<lambda>(cn, s). con_source cn = source s) (map (\<lambda>x. (x, s)) cons) =
      map (\<lambda>cn. (cn, s)) (filter (\<lambda>cn. con_source cn = source s) cons)"
    by (induction cons) auto
  have "mset (matching_pairs cons (s # ss)) =
      mset (filter (\<lambda>(cn, s). con_source cn = source s) (map (\<lambda>x. (x, s)) cons)) +
      mset (matching_pairs cons ss)"
    unfolding matching_pairs_def mset_filter mset_product_Cons_right by simp
  moreover have "mset (pairs_by_spike cons (s # ss)) =
      mset (map (\<lambda>cn. (cn, s)) (filter (\<lambda>cn. con_source cn = source s) cons)) +
      mset (pairs_by_spike cons ss)"
    by (simp add: pairs_by_spike_def)
  ultimately show ?case using Cons a by simp
qed

section \<open>The loop over the domains\<close>

lemma partition_ok_bounds:
  assumes "partition_ok n part m" "d < n"
  shows "part ! d \<le> part ! (d + 1)" "part ! (d + 1) \<le> m" "d + 1 < length part"
proof -
  have len: "length part = n + 1" and srt: "sorted part" and last: "part ! n = m"
    using assms(1) by (simp_all add: partition_ok_def)
  show "d + 1 < length part" using len assms(2) by simp
  show "part ! d \<le> part ! (d + 1)"
    using srt len assms(2) by (intro sorted_nth_mono) simp_all
  have "part ! (d + 1) \<le> part ! n"
    using srt len assms(2) by (intro sorted_nth_mono) simp_all
  then show "part ! (d + 1) \<le> m" using last by simp
qed

lemma subrange_view_slice:
  assumes "partition_ok n part (length xs)" "d < n"
  shows "subrange_view xs (part ! d) (part ! (d + 1)) = Inr (slice part xs d)"
  using partition_ok_bounds [OF assms] by (simp add: subrange_view_def slice_def)

lemma set_slice_subset: "set (slice part xs d) \<subseteq> set xs"
  unfolding slice_def by (meson set_take_subset set_drop_subset subset_trans)

lemma domain_step_by_deliver:
  assumes c: "communicator_ok c" and gs: "gathered_ok (num_domains c) gs"
    and d: "d < num_domains c" and len: "length qs = num_local_cells c"
  shows "domain_step_by f c gs d (deliver ps qs) =
    Inr (deliver (ps @ domain_pairs_by f c gs d) qs)"
proof -
  have pc: "partition_ok (num_domains c) (connection_part c) (length (connections c))"
    and sc: "sorted (map con_source (connection_slice c d))"
    and ic: "\<forall>cn\<in>set (connections c). con_index_on_domain cn < length qs"
    using c d len by (simp_all add: communicator_ok_def)
  have pg: "partition_ok (num_domains c) (gv_partition gs) (length (gv_values gs))"
    and sg: "sorted (map source (spike_slice gs d))"
    using gs d by (simp_all add: gathered_ok_def)
  have idx: "\<forall>cn\<in>set (connection_slice c d). con_index_on_domain cn < length qs"
    using ic set_slice_subset [of "connection_part c" "connections c" d]
    by (auto simp: connection_slice_def)
  have v1: "subrange_view (connections c) (connection_part c ! d) (connection_part c ! (d + 1))
      = Inr (connection_slice c d)"
    using subrange_view_slice [OF pc d] by (simp add: connection_slice_def)
  have v2: "subrange_view (gv_values gs) (gv_partition gs ! d) (gv_partition gs ! (d + 1))
      = Inr (spike_slice gs d)"
    using subrange_view_slice [OF pg d] by (simp add: spike_slice_def)
  have b: "d + 1 < length (connection_part c)" "d + 1 < length (gv_partition gs)"
    using partition_ok_bounds(3) [OF pc d] partition_ok_bounds(3) [OF pg d] by simp_all
  show ?thesis
    unfolding domain_step_by_def Let_def
    using b v1 v2 walk_connections_deliver [OF sc sg idx, of ps]
      walk_spikes_deliver [OF sc sg idx, of ps]
    by (simp add: domain_pairs_by_def)
qed

lemma domain_step_by_fewer:
  "domain_step c gs d qs = domain_step_by (fewer_connections c gs) c gs d qs"
  by (simp add: domain_step_def domain_step_by_def fewer_connections_def connection_slice_def
      spike_slice_def slice_def subrange_view_def Let_def)

lemma domain_loop_for_each:
  "domain_loop c gs ds qs = for_each (domain_step_by (fewer_connections c gs) c gs) ds qs"
  by (induction ds arbitrary: qs) (simp_all add: domain_step_by_fewer split: sum.splits)

lemma make_event_queues_by_fewer:
  "make_event_queues c gs qs = make_event_queues_by (fewer_connections c gs) c gs qs"
  by (simp add: make_event_queues_def make_event_queues_by_def domain_loop_for_each)

lemma for_each_deliver:
  assumes "\<And>d ps. d \<in> set ds \<Longrightarrow> body d (deliver ps qs) = Inr (deliver (ps @ g d) qs)"
  shows "for_each body ds (deliver ps qs) = Inr (deliver (ps @ concat (map g ds)) qs)"
  using assms
proof (induction ds arbitrary: ps)
  case Nil
  then show ?case by simp
next
  case (Cons d ds)
  have "for_each body ds (deliver (ps @ g d) qs) =
      Inr (deliver ((ps @ g d) @ concat (map g ds)) qs)"
    by (rule Cons.IH) (simp add: Cons.prems)
  then show ?case using Cons.prems [of d ps] by simp
qed

lemma make_event_queues_by_deliver:
  assumes c: "communicator_ok c" and gs: "gathered_ok (num_domains c) gs"
    and len: "length qs = num_local_cells c"
  shows "make_event_queues_by f c gs qs = Inr (deliver (matched_pairs_by f c gs) qs)"
proof -
  have "for_each (domain_step_by f c gs) [0..<num_domains c] (deliver [] qs) =
      Inr (deliver ([] @ concat (map (domain_pairs_by f c gs) [0..<num_domains c])) qs)"
    by (rule for_each_deliver) (simp add: domain_step_by_deliver [OF c gs _ len])
  then show ?thesis
    using len by (simp add: make_event_queues_by_def matched_pairs_by_def deliver_Nil)
qed

lemma make_event_queues_deliver:
  assumes c: "communicator_ok c" and gs: "gathered_ok (num_domains c) gs"
    and len: "length qs = num_local_cells c"
  shows "make_event_queues c gs qs = Inr (deliver (matched_pairs c gs) qs)"
  using make_event_queues_by_deliver [OF assms, of "fewer_connections c gs"]
  by (simp add: make_event_queues_by_fewer matched_pairs_def)

lemma mset_domain_pairs_by:
  "mset (domain_pairs_by f c gs d) = mset (matching_pairs (connection_slice c d) (spike_slice gs d))"
  by (simp add: domain_pairs_by_def pairs_by_connection_product mset_pairs_by_spike)

lemma mset_matched_pairs_by:
  "mset (matched_pairs_by f c gs) = mset (matched_pairs_by g c gs)"
  by (simp add: matched_pairs_by_def mset_concat mset_domain_pairs_by comp_def)

lemma mset_deliver_nth:
  assumes "mset ps = mset ps'" "i < length qs"
  shows "mset (deliver ps qs ! i) = mset (deliver ps' qs ! i)"
proof -
  have "mset (map (\<lambda>(cn, s). make_event cn s) (filter (\<lambda>(cn, s). con_index_on_domain cn = i) ps)) =
      mset (map (\<lambda>(cn, s). make_event cn s) (filter (\<lambda>(cn, s). con_index_on_domain cn = i) ps'))"
    using assms(1) by simp
  then show ?thesis using assms(2) by (simp add: deliver_nth)
qed

section \<open>Loops, prefix sums and buckets\<close>

lemma for_each_append:
  "for_each body (xs @ ys) st =
     (case for_each body xs st of Inl e \<Rightarrow> Inl e | Inr st' \<Rightarrow> for_each body ys st')"
  by (induction xs arbitrary: st) (simp_all split: sum.splits)

lemma for_each_map: "for_each body (map f xs) st = for_each (\<lambda>x. body (f x)) xs st"
  by (induction xs arbitrary: st) (simp_all split: sum.splits)

lemma for_each_nested:
  "for_each (\<lambda>g. for_each (f g) (h g)) gs st =
   for_each (\<lambda>(g, x). f g x) (concat (map (\<lambda>g. map (Pair g) (h g)) gs)) st"
proof (induction gs arbitrary: st)
  case Nil
  then show ?case by simp
next
  case (Cons g gs)
  show ?case
    by (simp add: for_each_append for_each_map Cons.IH split: sum.splits)
qed

lemma length_partial_sums: "length (partial_sums a xs) = length xs + 1"
  by (induction xs arbitrary: a) simp_all

lemma partial_sums_nth:
  "k \<le> length xs \<Longrightarrow> partial_sums a xs ! k = a + sum_list (take k xs)"
proof (induction xs arbitrary: a k)
  case Nil
  then show ?case by simp
next
  case (Cons x xs)
  then show ?case by (cases k) simp_all
qed

lemma partial_sums_ge: "y \<in> set (partial_sums a xs) \<Longrightarrow> a \<le> y"
proof (induction xs arbitrary: a)
  case Nil
  then show ?case by simp
next
  case (Cons x xs)
  then show ?case by fastforce
qed

lemma sorted_partial_sums: "sorted (partial_sums a xs)"
  by (induction xs arbitrary: a) (auto dest: partial_sums_ge)

lemma length_make_index: "length (make_index xs) = length xs + 1"
  by (simp add: make_index_def length_partial_sums)

lemma make_index_nth: "k \<le> length xs \<Longrightarrow> make_index xs ! k = sum_list (take k xs)"
  by (simp add: make_index_def partial_sums_nth)

lemma sorted_make_index: "sorted (make_index xs)"
  by (simp add: make_index_def sorted_partial_sums)

lemma make_index_lengths_nth:
  "k \<le> length Bs \<Longrightarrow> make_index (map length Bs) ! k = length (concat (take k Bs))"
  by (simp add: make_index_nth length_concat take_map)

lemma partition_ok_make_index:
  "partition_ok (length Bs) (make_index (map length Bs)) (length (concat Bs))"
  by (simp add: partition_ok_def length_make_index sorted_make_index make_index_lengths_nth)

lemma concat_split_nth:
  "d < length Bs \<Longrightarrow> concat Bs = concat (take d Bs) @ Bs ! d @ concat (drop (Suc d) Bs)"
proof -
  assume "d < length Bs"
  then have "Bs = take d Bs @ Bs ! d # drop (Suc d) Bs" by (rule id_take_nth_drop)
  then have "concat Bs = concat (take d Bs @ Bs ! d # drop (Suc d) Bs)" by simp
  then show ?thesis by simp
qed

lemma concat_update_nth:
  "d < length Bs \<Longrightarrow> concat (Bs[d := ys]) = concat (take d Bs) @ ys @ concat (drop (Suc d) Bs)"
  by (simp add: upd_conv_take_nth_drop)

lemma take_Suc_concat:
  "d < length Bs \<Longrightarrow> length (concat (take (Suc d) Bs)) = length (concat (take d Bs)) + length (Bs ! d)"
  by (simp add: take_Suc_conv_app_nth)

lemma slice_concat:
  assumes "d < length Bs"
  shows "slice (make_index (map length Bs)) (concat Bs) d = Bs ! d"
proof -
  have l: "make_index (map length Bs) ! d = length (concat (take d Bs))"
    using assms by (simp add: make_index_lengths_nth)
  have r: "make_index (map length Bs) ! (d + 1) = length (concat (take d Bs)) + length (Bs ! d)"
    using assms by (simp add: make_index_lengths_nth take_Suc_concat)
  have "take (length (Bs ! d)) (drop (length (concat (take d Bs)))
      (concat (take d Bs) @ Bs ! d @ concat (drop (Suc d) Bs))) = Bs ! d"
    by simp
  then have "take (length (Bs ! d)) (drop (length (concat (take d Bs))) (concat Bs)) = Bs ! d"
    using concat_split_nth [OF assms] by simp
  then show ?thesis
    unfolding slice_def l r by simp
qed

lemma list_update_concat:
  assumes "d < length Bs" "j < length (Bs ! d)"
  shows "(concat Bs)[length (concat (take d Bs)) + j := v] = concat (Bs[d := (Bs ! d)[j := v]])"
proof -
  have "(concat (take d Bs) @ Bs ! d @ concat (drop (Suc d) Bs))[length (concat (take d Bs)) + j := v]
      = concat (take d Bs) @ (Bs ! d)[j := v] @ concat (drop (Suc d) Bs)"
    using assms(2) by (simp add: list_update_append)
  then show ?thesis
    using concat_split_nth [OF assms(1)] concat_update_nth [OF assms(1), of "(Bs ! d)[j := v]"]
    by simp
qed

lemma concat_index_less:
  assumes "d < length Bs" "j < length (Bs ! d)"
  shows "length (concat (take d Bs)) + j < length (concat Bs)"
proof -
  have "length (concat (take d Bs)) + j <
      length (concat (take d Bs) @ Bs ! d @ concat (drop (Suc d) Bs))"
    using assms(2) by simp
  then show ?thesis using concat_split_nth [OF assms(1)] by simp
qed

lemma sum_list_indicator:
  "sum_list (map (\<lambda>d. if k = d then 1 else 0) [0..<n]) = (if k < n then 1 else (0::nat))"
  by (induction n) simp_all

lemma sum_bucket_sizes:
  "\<forall>x\<in>set xs. key x < n \<Longrightarrow>
   sum_list (map (\<lambda>d. length (filter (\<lambda>x. key x = d) xs)) [0..<n]) = length xs"
proof (induction xs)
  case Nil
  then show ?case by simp
next
  case (Cons x xs)
  have "map (\<lambda>d. length (filter (\<lambda>x. key x = d) (x # xs))) [0..<n] =
      map (\<lambda>d. (if key x = d then 1 else 0) + length (filter (\<lambda>x. key x = d) xs)) [0..<n]"
    by simp
  then have "sum_list (map (\<lambda>d. length (filter (\<lambda>x. key x = d) (x # xs))) [0..<n]) =
      sum_list (map (\<lambda>d. if key x = d then 1 else 0) [0..<n]) +
      sum_list (map (\<lambda>d. length (filter (\<lambda>x. key x = d) xs)) [0..<n])"
    by (simp only: sum_list_addf)
  then show ?case using Cons by (simp add: sum_list_indicator)
qed

lemma concat_replicates:
  "concat (map (\<lambda>d. replicate (f d) x) ds) = replicate (sum_list (map f ds)) x"
  by (induction ds) (simp_all add: replicate_add)

section \<open>The counting loop and the placing loop\<close>

lemma count_loop:
  "for_each (\<lambda>(g, c). count_source (dd_gid_domain dom_dec) c) its (sd, cnts) =
     (if \<forall>it\<in>set its. source_domain dom_dec it < length cnts
      then Inr (sd @ map (source_domain dom_dec) its,
                map (\<lambda>d. cnts ! d + length (bucket dom_dec d its)) [0..<length cnts])
      else Inl Out_of_range)"
proof (induction its arbitrary: sd cnts)
  case Nil
  then show ?case by (simp add: bucket_def map_nth)
next
  case (Cons it its)
  obtain g c where it: "it = (g, c)" by (cases it)
  define src where "src = source_domain dom_dec it"
  show ?case
  proof (cases "src < length cnts")
    case False
    then show ?thesis
      using it by (auto simp: count_source_def source_domain_def src_def Let_def)
  next
    case True
    define cnts' where "cnts' = cnts[src := cnts ! src + 1]"
    have step: "count_source (dd_gid_domain dom_dec) c (sd, cnts) = Inr (sd @ [src], cnts')"
      using True it by (simp add: count_source_def source_domain_def src_def cnts'_def Let_def)
    have len: "length cnts' = length cnts" by (simp add: cnts'_def)
    have "map (\<lambda>d. cnts' ! d + length (bucket dom_dec d its)) [0..<length cnts] =
        map (\<lambda>d. cnts ! d + length (bucket dom_dec d (it # its))) [0..<length cnts]"
      by (rule map_cong [OF refl])
        (auto simp: cnts'_def bucket_def nth_list_update src_def)
    then show ?thesis
      using True it step Cons.IH [of "sd @ [src]" cnts'] len
      by (simp add: src_def)
  qed
qed

lemma bucket_append: "bucket dom_dec d (xs @ ys) = bucket dom_dec d xs @ bucket dom_dec d ys"
  by (simp add: bucket_def)

lemma bucket_Nil: "bucket dom_dec d [] = []"
  by (simp add: bucket_def)

lemma bucket_Cons:
  "bucket dom_dec d (x # xs) =
     (if source_domain dom_dec x = d then x # bucket dom_dec d xs else bucket dom_dec d xs)"
  by (simp add: bucket_def)

lemma length_filled: "length (filled dom_dec n its pre) = n"
  by (simp add: filled_def)

lemma filled_nth:
  "d < n \<Longrightarrow> filled dom_dec n its pre ! d =
     map placed (bucket dom_dec d pre) @
     replicate (length (bucket dom_dec d its) - length (bucket dom_dec d pre)) default_connection"
  by (simp add: filled_def)

lemma map_length_filled:
  assumes "its = pre @ rest"
  shows "map length (filled dom_dec n its pre) = map (\<lambda>d. length (bucket dom_dec d its)) [0..<n]"
  unfolding filled_def assms by (simp add: bucket_append comp_def)

lemma offsets_after_filled:
  assumes "its = pre @ rest" "d \<le> n"
  shows "offsets_after dom_dec n its pre ! d =
    length (concat (take d (filled dom_dec n its pre))) + length (bucket dom_dec d pre)"
proof -
  have "make_index (map (\<lambda>d. length (bucket dom_dec d its)) [0..<n]) ! d =
      length (concat (take d (filled dom_dec n its pre)))"
    using make_index_lengths_nth [of d "filled dom_dec n its pre"] assms(2)
    by (simp add: map_length_filled [OF assms(1)] length_filled)
  then show ?thesis
    using assms(2) unfolding offsets_after_def
    by (simp add: nth_map_upt del: upt_Suc)
qed

lemma place_step:
  assumes its: "its = pre @ (g, c) # rest"
    and keys: "\<forall>it\<in>set its. source_domain dom_dec it < n"
  shows "place_connection (map (source_domain dom_dec) its) (info_index_on_domain g) c
      (offsets_after dom_dec n its pre, concat (filled dom_dec n its pre), length pre) =
    Inr (offsets_after dom_dec n its (pre @ [(g, c)]),
         concat (filled dom_dec n its (pre @ [(g, c)])), length (pre @ [(g, c)]))"
proof -
  define d0 where "d0 = source_domain dom_dec (g, c)"
  define Rs where "Rs = filled dom_dec n its pre"
  define j where "j = length (bucket dom_dec d0 pre)"
  define m where "m = length (bucket dom_dec d0 rest)"
  have d0: "d0 < n" using its keys by (simp add: d0_def)
  have pos: "length pre < length (map (source_domain dom_dec) its)" using its by simp
  have src: "map (source_domain dom_dec) its ! length pre = d0"
    unfolding its d0_def by (simp add: nth_append)
  have lenRs: "length Rs = n" by (simp add: Rs_def length_filled)
  have bits: "length (bucket dom_dec d0 its) = j + Suc m"
    unfolding its by (simp add: bucket_append bucket_Cons d0_def j_def m_def)
  have Rs_d0: "Rs ! d0 = map placed (bucket dom_dec d0 pre) @ replicate (Suc m) default_connection"
    using d0 bits by (simp add: Rs_def filled_nth j_def)
  have j_lt: "j < length (Rs ! d0)" by (simp add: Rs_d0 j_def)
  have off: "offsets_after dom_dec n its pre ! d0 = length (concat (take d0 Rs)) + j"
    using offsets_after_filled [OF its, of d0 n dom_dec] d0 by (simp add: Rs_def j_def)
  have lt: "length (concat (take d0 Rs)) + j < length (concat Rs)"
    using concat_index_less [of d0 Rs j] d0 lenRs j_lt by simp
  have upd: "(concat Rs)[length (concat (take d0 Rs)) + j := placed (g, c)] =
      concat (Rs[d0 := (Rs ! d0)[j := placed (g, c)]])"
    using list_update_concat [of d0 Rs j] d0 lenRs j_lt by simp
  have new_d0: "(Rs ! d0)[j := placed (g, c)] =
      map placed (bucket dom_dec d0 pre @ [(g, c)]) @ replicate m default_connection"
    by (simp add: Rs_d0 j_def list_update_append)
  have Rs': "Rs[d0 := (Rs ! d0)[j := placed (g, c)]] = filled dom_dec n its (pre @ [(g, c)])"
  proof (rule nth_equalityI)
    show "length (Rs[d0 := (Rs ! d0)[j := placed (g, c)]]) =
        length (filled dom_dec n its (pre @ [(g, c)]))"
      by (simp add: lenRs length_filled)
  next
    fix d assume "d < length (Rs[d0 := (Rs ! d0)[j := placed (g, c)]])"
    then have d: "d < n" by (simp add: lenRs)
    show "Rs[d0 := (Rs ! d0)[j := placed (g, c)]] ! d = filled dom_dec n its (pre @ [(g, c)]) ! d"
    proof (cases "d = d0")
      case True
      then show ?thesis
        using d lenRs new_d0 bits
        by (simp add: filled_nth bucket_append bucket_Cons bucket_Nil d0_def j_def)
    next
      case False
      then show ?thesis
        using d lenRs
        by (simp add: Rs_def filled_nth bucket_append bucket_Cons bucket_Nil d0_def)
    qed
  qed
  have offs': "(offsets_after dom_dec n its pre)[d0 := offsets_after dom_dec n its pre ! d0 + 1] =
      offsets_after dom_dec n its (pre @ [(g, c)])"
  proof (rule nth_equalityI)
    show "length ((offsets_after dom_dec n its pre)[d0 := offsets_after dom_dec n its pre ! d0 + 1])
        = length (offsets_after dom_dec n its (pre @ [(g, c)]))"
      by (simp add: offsets_after_def)
  next
    fix d
    assume "d < length ((offsets_after dom_dec n its pre)[d0 := offsets_after dom_dec n its pre ! d0 + 1])"
    then have d: "d < Suc n" by (simp add: offsets_after_def)
    show "(offsets_after dom_dec n its pre)[d0 := offsets_after dom_dec n its pre ! d0 + 1] ! d =
        offsets_after dom_dec n its (pre @ [(g, c)]) ! d"
    proof (cases "d = d0")
      case True
      then show ?thesis
        using d by (simp add: offsets_after_def nth_map_upt bucket_append bucket_Cons bucket_Nil
            d0_def del: upt_Suc)
    next
      case False
      then show ?thesis
        using d by (simp add: offsets_after_def nth_map_upt bucket_append bucket_Cons bucket_Nil
            d0_def del: upt_Suc)
    qed
  qed
  have len_off: "d0 < length (offsets_after dom_dec n its pre)"
    using d0 by (simp add: offsets_after_def)
  have pl: "placed (g, c) = \<lparr>con_source = cc_source c, con_destination = cc_dest c,
      con_weight = cc_weight c, con_delay = cc_delay c,
      con_index_on_domain = info_index_on_domain g\<rparr>"
    by (simp add: placed_def)
  show ?thesis
    unfolding place_connection_def
    using pos src len_off off lt upd Rs' offs' pl
    by (simp add: Rs_def Let_def)
qed

lemma place_loop:
  "its = pre @ rest \<Longrightarrow> \<forall>it\<in>set its. source_domain dom_dec it < n \<Longrightarrow>
   for_each (\<lambda>(g, c). place_connection (map (source_domain dom_dec) its) (info_index_on_domain g) c)
     rest (offsets_after dom_dec n its pre, concat (filled dom_dec n its pre), length pre) =
   Inr (offsets_after dom_dec n its its, concat (filled dom_dec n its its), length its)"
proof (induction rest arbitrary: pre)
  case Nil
  then show ?case by simp
next
  case (Cons it rest)
  obtain g c where it: "it = (g, c)" by (cases it)
  have its: "its = pre @ (g, c) # rest" using Cons.prems(1) it by simp
  have its': "its = (pre @ [(g, c)]) @ rest" using its by simp
  show ?case
    using place_step [OF its Cons.prems(2)] Cons.IH [OF its' Cons.prems(2)] it
    by simp
qed

section \<open>The sorting loop\<close>

lemma length_sort_connections: "length (sort_connections xs) = length xs"
  by (simp add: sort_connections_def)

lemma sort_step:
  assumes "d < length Bs"
  shows "sort_domain (make_index (map length Bs)) d (concat Bs) =
    Inr (concat (Bs[d := sort_connections (Bs ! d)]))"
proof -
  define A where "A = concat (take d Bs)"
  define C where "C = concat (drop (Suc d) Bs)"
  have split: "concat Bs = A @ Bs ! d @ C"
    using concat_split_nth [OF assms] by (simp add: A_def C_def)
  have l: "make_index (map length Bs) ! d = length A"
    using assms by (simp add: make_index_lengths_nth A_def)
  have r: "make_index (map length Bs) ! (d + 1) = length A + length (Bs ! d)"
    using assms by (simp add: make_index_lengths_nth take_Suc_concat A_def)
  have len: "d + 1 < length (make_index (map length Bs))"
    using assms by (simp add: length_make_index)
  have sub: "subrange_view (concat Bs) (length A) (length A + length (Bs ! d)) = Inr (Bs ! d)"
    by (simp add: subrange_view_def split)
  have "take (length A) (concat Bs) @ sort_connections (Bs ! d) @
      drop (length A + length (Bs ! d)) (concat Bs) = A @ sort_connections (Bs ! d) @ C"
    by (simp add: split)
  also have "\<dots> = concat (Bs[d := sort_connections (Bs ! d)])"
    using concat_update_nth [OF assms] by (simp add: A_def C_def)
  finally show ?thesis
    unfolding sort_domain_def l r using len sub by simp
qed

lemma sort_loop:
  "\<forall>d\<in>set ds. d < length Bs \<Longrightarrow>
   for_each (sort_domain (make_index (map length Bs))) ds (concat Bs) =
     Inr (concat (fold (\<lambda>d Bs. Bs[d := sort_connections (Bs ! d)]) ds Bs))"
proof (induction ds arbitrary: Bs)
  case Nil
  then show ?case by simp
next
  case (Cons d ds)
  define Bs' where "Bs' = Bs[d := sort_connections (Bs ! d)]"
  have d: "d < length Bs" and ds: "\<forall>d\<in>set ds. d < length Bs'"
    using Cons.prems by (simp_all add: Bs'_def)
  have "map length Bs' = map length Bs"
    unfolding Bs'_def using d
    by (simp add: map_update length_sort_connections list_update_same_conv)
  then show ?case
    using sort_step [OF d] Cons.IH [OF ds] by (simp add: Bs'_def)
qed

lemma fold_update_all:
  "k \<le> length Bs \<Longrightarrow>
   fold (\<lambda>d Bs. Bs[d := f (Bs ! d)]) [0..<k] Bs = map f (take k Bs) @ drop k Bs"
proof (induction k)
  case 0
  then show ?case by simp
next
  case (Suc k)
  then have k: "k < length Bs" by simp
  have "(map f (take k Bs) @ drop k Bs)[k := f ((map f (take k Bs) @ drop k Bs) ! k)] =
      map f (take (Suc k) Bs) @ drop (Suc k) Bs"
    using k
    by (simp add: list_update_append nth_append take_Suc_conv_app_nth
        Cons_nth_drop_Suc [symmetric])
  then show ?case using Suc by simp
qed

lemma sort_all:
  "for_each (sort_domain (make_index (map length Bs))) [0..<length Bs] (concat Bs) =
     Inr (concat (map sort_connections Bs))"
  using sort_loop [of "[0..<length Bs]" Bs] fold_update_all [of "length Bs" Bs sort_connections]
  by simp

section \<open>The constructor\<close>

lemma filled_all:
  "filled dom_dec n its its = map (\<lambda>d. map placed (bucket dom_dec d its)) [0..<n]"
  by (simp add: filled_def)

lemma filled_none:
  assumes "\<forall>it\<in>set its. source_domain dom_dec it < n"
  shows "concat (filled dom_dec n its []) = replicate (length its) default_connection"
proof -
  have "concat (filled dom_dec n its []) =
      replicate (sum_list (map (\<lambda>d. length (bucket dom_dec d its)) [0..<n])) default_connection"
    unfolding filled_def by (simp add: bucket_Nil concat_replicates)
  then show ?thesis
    using sum_bucket_sizes [OF assms] by (simp add: bucket_def)
qed

lemma offsets_none:
  "offsets_after dom_dec n its [] = make_index (map (\<lambda>d. length (bucket dom_dec d its)) [0..<n])"
proof -
  have "length (make_index (map (\<lambda>d. length (bucket dom_dec d its)) [0..<n])) = Suc n"
    by (simp add: length_make_index)
  then show ?thesis
    unfolding offsets_after_def bucket_Nil
    by (metis (no_types, lifting) add.right_neutral list.size(3) map_nth map_eq_conv)
qed

lemma count_all:
  "for_each (\<lambda>g. for_each (count_source (dd_gid_domain dom_dec)) (info_conns g))
     (gid_infos_of connections_on dom_dec) ([], replicate n 0) =
   (if \<forall>it\<in>set (local_items connections_on dom_dec). source_domain dom_dec it < n
    then Inr (map (source_domain dom_dec) (local_items connections_on dom_dec),
              map (\<lambda>d. length (bucket dom_dec d (local_items connections_on dom_dec))) [0..<n])
    else Inl Out_of_range)"
proof -
  have "map (\<lambda>d. replicate n (0::nat) ! d +
        length (bucket dom_dec d (local_items connections_on dom_dec))) [0..<n] =
      map (\<lambda>d. length (bucket dom_dec d (local_items connections_on dom_dec))) [0..<n]"
    by (rule map_cong [OF refl]) simp
  then show ?thesis
    using count_loop [of dom_dec "local_items connections_on dom_dec" "[]" "replicate n 0"]
    by (simp add: for_each_nested local_items_def)
qed

lemma place_all:
  assumes "\<forall>it\<in>set (local_items connections_on dom_dec). source_domain dom_dec it < n"
  shows "for_each
     (\<lambda>cell. for_each
        (place_connection (map (source_domain dom_dec) (local_items connections_on dom_dec))
           (info_index_on_domain cell))
        (info_conns cell))
     (gid_infos_of connections_on dom_dec)
     (make_index (map (\<lambda>d. length (bucket dom_dec d (local_items connections_on dom_dec))) [0..<n]),
      replicate (length (local_items connections_on dom_dec)) default_connection, 0) =
   Inr (offsets_after dom_dec n (local_items connections_on dom_dec)
          (local_items connections_on dom_dec),
        concat (map (\<lambda>d. map placed (bucket dom_dec d (local_items connections_on dom_dec))) [0..<n]),
        length (local_items connections_on dom_dec))"
proof -
  define its where "its = local_items connections_on dom_dec"
  have "for_each (\<lambda>(g, c). place_connection (map (source_domain dom_dec) its) (info_index_on_domain g) c)
      its (offsets_after dom_dec n its [], concat (filled dom_dec n its []), length ([] :: (gid_info \<times> cell_connection) list)) =
    Inr (offsets_after dom_dec n its its, concat (filled dom_dec n its its), length its)"
    using assms by (intro place_loop) (simp_all add: its_def)
  then show ?thesis
    using assms
    by (simp add: for_each_nested filled_all filled_none offsets_none its_def
        local_items_def [symmetric])
qed

lemma length_local_items:
  "sum_list (map (\<lambda>g. length (info_conns g)) (gid_infos_of connections_on dom_dec)) =
   length (local_items connections_on dom_dec)"
  by (simp add: local_items_def length_concat comp_def)

lemma communicator_ctor_eq:
  "communicator_ctor connections_on dom_dec n =
     (if ctor_defined connections_on dom_dec n
      then Inr (built_communicator connections_on dom_dec n)
      else Inl Out_of_range)"
proof (cases "ctor_defined connections_on dom_dec n")
  case False
  then show ?thesis
    unfolding communicator_ctor_def Let_def
    unfolding local_gids_def [symmetric] gid_infos_of_def [symmetric]
    by (auto simp: ctor_defined_def count_all)
next
  case True
  define its where "its = local_items connections_on dom_dec"
  define Bs where "Bs = map (\<lambda>d. map placed (bucket dom_dec d its)) [0..<n]"
  have keys: "\<forall>it\<in>set (local_items connections_on dom_dec). source_domain dom_dec it < n"
    and gids: "\<not> dd_num_local_cells dom_dec < length (local_gids dom_dec)"
    using True by (auto simp: ctor_defined_def)
  have lens: "map (\<lambda>d. length (bucket dom_dec d its)) [0..<n] = map length Bs"
    by (simp add: Bs_def comp_def)
  have lenBs: "length Bs = n" by (simp add: Bs_def)
  have srt: "for_each (sort_domain (make_index (map length Bs))) [0..<n] (concat Bs) =
      Inr (concat (map sort_connections Bs))"
    using sort_all [of Bs] lenBs by simp
  have tab: "map sort_connections Bs = bucket_table connections_on dom_dec n"
    by (simp add: Bs_def bucket_table_def its_def)
  have lens': "map length Bs = map length (bucket_table connections_on dom_dec n)"
    unfolding tab [symmetric] by (simp add: length_sort_connections comp_def)
  have pl: "for_each
     (\<lambda>cell. for_each
        (place_connection (map (source_domain dom_dec) its) (info_index_on_domain cell))
        (info_conns cell))
     (gid_infos_of connections_on dom_dec)
     (make_index (map length Bs), replicate (length its) default_connection, 0) =
   Inr (offsets_after dom_dec n its its, concat Bs, length its)"
    using place_all [OF keys] by (simp add: its_def [symmetric] lens Bs_def [symmetric])
  show ?thesis
    unfolding communicator_ctor_def Let_def
    unfolding local_gids_def [symmetric] gid_infos_of_def [symmetric]
    using True gids keys srt
    by (simp add: count_all length_local_items pl
        its_def [symmetric] lens tab lens' [symmetric]
        built_communicator_def)
qed

section \<open>The communicator the constructor builds\<close>

lemma length_bucket_table: "length (bucket_table connections_on dom_dec n) = n"
  by (simp add: bucket_table_def)

lemma built_slice:
  assumes "d < n"
  shows "connection_slice (built_communicator connections_on dom_dec n) d =
    sort_connections (map placed (bucket dom_dec d (local_items connections_on dom_dec)))"
proof -
  have "slice (make_index (map length (bucket_table connections_on dom_dec n)))
      (concat (bucket_table connections_on dom_dec n)) d = bucket_table connections_on dom_dec n ! d"
    using assms by (intro slice_concat) (simp add: length_bucket_table)
  then show ?thesis
    using assms by (simp add: connection_slice_def built_communicator_def bucket_table_def)
qed

lemma built_partition_ok:
  "partition_ok n (connection_part (built_communicator connections_on dom_dec n))
     (length (connections (built_communicator connections_on dom_dec n)))"
  using partition_ok_make_index [of "bucket_table connections_on dom_dec n"]
  by (simp add: built_communicator_def length_bucket_table)

lemma sorted_key_sort_connections: "sorted (map connection_key (sort_connections xs))"
  by (simp add: sort_connections_def)

lemma sorted_key_source:
  assumes "sorted (map connection_key xs)"
  shows "sorted (map con_source xs)"
proof -
  have "sorted_wrt (\<lambda>a b. connection_key a \<le> connection_key b) xs"
    using assms by (simp add: sorted_map)
  then have "sorted_wrt (\<lambda>a b. con_source a \<le> con_source b) xs"
    by (rule sorted_wrt_mono_rel [rotated])
      (auto simp: connection_key_def less_eq_prod_def)
  then show ?thesis by (simp add: sorted_map)
qed

lemma set_sort_connections: "set (sort_connections xs) = set xs"
  by (simp add: sort_connections_def)

lemma mset_sort_connections: "mset (sort_connections xs) = mset xs"
  by (simp add: sort_connections_def)

lemma local_items_index:
  assumes "(g, cc) \<in> set (local_items connections_on dom_dec)"
  shows "info_index_on_domain g < length (local_gids dom_dec)"
    and "cc \<in> set (connections_on (local_gids dom_dec ! info_index_on_domain g))"
  using assms
  by (auto simp: local_items_def gid_infos_of_def default_gid_info_def)

lemma built_connections_set:
  "set (connections (built_communicator connections_on dom_dec n)) =
     placed ` {it \<in> set (local_items connections_on dom_dec). source_domain dom_dec it < n}"
  by (auto simp: built_communicator_def bucket_table_def set_sort_connections bucket_def)

lemma built_ok:
  assumes "ctor_defined connections_on dom_dec n"
  shows "communicator_ok (built_communicator connections_on dom_dec n)"
proof -
  let ?c = "built_communicator connections_on dom_dec n"
  have n: "num_domains ?c = n" and cells: "num_local_cells ?c = dd_num_local_cells dom_dec"
    by (simp_all add: built_communicator_def)
  have le: "length (local_gids dom_dec) \<le> dd_num_local_cells dom_dec"
    using assms by (simp add: ctor_defined_def)
  have "sorted (map con_source (connection_slice ?c d))" if "d < n" for d
    using built_slice [OF that] sorted_key_source [OF sorted_key_sort_connections] by simp
  moreover have "con_index_on_domain cn < dd_num_local_cells dom_dec"
    if "cn \<in> set (connections ?c)" for cn
  proof -
    have "cn \<in> placed ` {it \<in> set (local_items connections_on dom_dec).
        source_domain dom_dec it < n}"
      using that by (simp only: built_connections_set)
    then obtain it where it: "it \<in> set (local_items connections_on dom_dec)" "cn = placed it"
      by blast
    obtain g cc where gc: "it = (g, cc)" by (cases it)
    show ?thesis
      using local_items_index(1) [of g cc connections_on dom_dec] it gc le
      by (simp add: placed_def)
  qed
  ultimately show ?thesis
    unfolding communicator_ok_def n cells using built_partition_ok by blast
qed

lemma ctor_built:
  assumes "communicator_ctor connections_on dom_dec n = Inr c"
  shows "c = built_communicator connections_on dom_dec n" "ctor_defined connections_on dom_dec n"
  using assms by (auto simp: communicator_ctor_eq split: if_splits)

lemma ctor_ok:
  assumes "communicator_ctor connections_on dom_dec n = Inr c"
  shows "communicator_ok c"
  using ctor_built [OF assms] built_ok by simp

lemma ctor_fields:
  assumes "communicator_ctor connections_on dom_dec n = Inr c"
  shows "num_domains c = n" "num_local_cells c = dd_num_local_cells dom_dec"
  using ctor_built(1) [OF assms] by (simp_all add: built_communicator_def)

lemma partition_cover:
  assumes "partition_ok n part m" "i < m"
  shows "\<exists>d<n. part ! d \<le> i \<and> i < part ! (d + 1)"
proof -
  have "k \<le> n \<Longrightarrow> i < part ! k \<Longrightarrow> \<exists>d<k. part ! d \<le> i \<and> i < part ! (d + 1)" for k
  proof (induction k)
    case 0
    then show ?case using assms(1) by (simp add: partition_ok_def)
  next
    case (Suc k)
    show ?case
    proof (cases "i < part ! k")
      case True
      then obtain d where "d < k" "part ! d \<le> i" "i < part ! (d + 1)"
        using Suc by auto
      then show ?thesis using less_Suc_eq by blast
    next
      case False
      then show ?thesis using Suc.prems(2) by (intro exI [of _ k]) simp
    qed
  qed
  from this [of n] show ?thesis using assms by (simp add: partition_ok_def)
qed

lemma partition_unique:
  assumes "partition_ok n part m" "d < n" "d' < n"
    and "part ! d \<le> i" "i < part ! (d + 1)" "part ! d' \<le> i" "i < part ! (d' + 1)"
  shows "d = d'"
proof (rule ccontr)
  assume ne: "d \<noteq> d'"
  have srt: "sorted part" and len: "length part = n + 1"
    using assms(1) by (simp_all add: partition_ok_def)
  show False
  proof (cases "d < d'")
    case True
    then have "part ! (d + 1) \<le> part ! d'"
      using srt len assms(3) by (intro sorted_nth_mono) simp_all
    then show False using assms(5,6) by simp
  next
    case False
    then have "d' < d" using ne by simp
    then have "part ! (d' + 1) \<le> part ! d"
      using srt len assms(2) by (intro sorted_nth_mono) simp_all
    then show False using assms(4,7) by simp
  qed
qed

lemma slice_member:
  assumes "partition_ok n part (length xs)" "d < n" "part ! d \<le> i" "i < part ! (d + 1)"
  shows "xs ! i \<in> set (slice part xs d)"
proof -
  have b: "part ! (d + 1) \<le> length xs"
    using partition_ok_bounds(2) [OF assms(1,2)] .
  define k where "k = i - part ! d"
  have k: "k < part ! (d + 1) - part ! d" "i = part ! d + k"
    using assms(3,4) by (simp_all add: k_def)
  have "slice part xs d ! k = xs ! i"
    unfolding slice_def using k b by simp
  moreover have "k < length (slice part xs d)"
    unfolding slice_def using k b by simp
  ultimately show ?thesis by (metis nth_mem)
qed

section \<open>Queues only grow, and their indices are in range\<close>

lemma push_back_prefix:
  "push_back i e qs = Inr qs' \<Longrightarrow> list_all2 prefix qs qs'"
  by (auto simp: push_back_def list_all2_conv_all_nth nth_list_update split: if_splits)

lemma prefix_queues_trans:
  "list_all2 prefix qs qs' \<Longrightarrow> list_all2 prefix qs' qs'' \<Longrightarrow> list_all2 prefix qs qs''"
  by (rule list_all2_trans [of prefix prefix prefix]) auto

lemma prefix_queues_refl: "list_all2 prefix qs qs"
  by (simp add: list_all2_refl)

lemma push_sources_safe:
  "(push_sources cn ss qs = Inr qs' \<longrightarrow> list_all2 prefix qs qs') \<and>
   (con_index_on_domain cn < length qs \<longrightarrow> push_sources cn ss qs \<noteq> Inl Queue_out_of_range)"
proof (induction ss arbitrary: qs)
  case Nil
  then show ?case by (simp add: prefix_queues_refl)
next
  case (Cons s ss)
  show ?case
  proof (cases "push_back (con_index_on_domain cn) (make_event cn s) qs")
    case (Inl e)
    then show ?thesis by (auto simp: push_back_def split: if_splits)
  next
    case (Inr q1)
    have p: "list_all2 prefix qs q1" using Inr by (rule push_back_prefix)
    then have "length q1 = length qs" by (simp add: list_all2_lengthD)
    then show ?thesis
      using Inr Cons.IH [of q1] p by (auto intro: prefix_queues_trans)
  qed
qed

lemma push_targets_safe:
  "(push_targets cs s qs = Inr qs' \<longrightarrow> list_all2 prefix qs qs') \<and>
   ((\<forall>c\<in>set cs. con_index_on_domain c < length qs) \<longrightarrow>
      push_targets cs s qs \<noteq> Inl Queue_out_of_range)"
proof (induction cs arbitrary: qs)
  case Nil
  then show ?case by (simp add: prefix_queues_refl)
next
  case (Cons c cs)
  show ?case
  proof (cases "push_back (con_index_on_domain c) (make_event c s) qs")
    case (Inl e)
    then show ?thesis by (auto simp: push_back_def split: if_splits)
  next
    case (Inr q1)
    have p: "list_all2 prefix qs q1" using Inr by (rule push_back_prefix)
    then have "length q1 = length qs" by (simp add: list_all2_lengthD)
    then show ?thesis
      using Inr Cons.IH [of q1] p by (auto intro: prefix_queues_trans)
  qed
qed

lemma equal_range_error: "equal_range lt gt xs = Inl e \<Longrightarrow> e = Unsorted_range"
  by (auto simp: equal_range_def split: if_splits)

lemma walk_connections_safe:
  "(walk_connections cons sp qs = Inr qs' \<longrightarrow> list_all2 prefix qs qs') \<and>
   ((\<forall>c\<in>set cons. con_index_on_domain c < length qs) \<longrightarrow>
      walk_connections cons sp qs \<noteq> Inl Queue_out_of_range)"
proof (induction cons arbitrary: sp qs)
  case Nil
  then show ?case by (simp add: prefix_queues_refl)
next
  case (Cons cn cns)
  show ?case
  proof (cases "sp = []")
    case True
    then show ?thesis by (simp add: prefix_queues_refl)
  next
    case False
    show ?thesis
    proof (cases "equal_range (\<lambda>spk. source spk < con_source cn)
        (\<lambda>spk. con_source cn < source spk) sp")
      case (Inl e)
      then show ?thesis using False equal_range_error [OF Inl] by simp
    next
      case (Inr r)
      obtain l u where r: "r = (l, u)" by (cases r)
      show ?thesis
      proof (cases "push_sources cn (take (u - l) (drop l sp)) qs")
        case (Inl e)
        then show ?thesis
          using False Inr r push_sources_safe [of cn "take (u - l) (drop l sp)" qs]
          by auto
      next
        case q1: (Inr q1)
        have p: "list_all2 prefix qs q1"
          using q1 push_sources_safe [of cn "take (u - l) (drop l sp)" qs q1] by simp
        then have "length q1 = length qs" by (simp add: list_all2_lengthD)
        then show ?thesis
          using False Inr r q1 p Cons.IH [of "drop l sp" q1]
          by (auto intro: prefix_queues_trans)
      qed
    qed
  qed
qed

lemma walk_spikes_safe:
  "(walk_spikes cons sp qs = Inr qs' \<longrightarrow> list_all2 prefix qs qs') \<and>
   ((\<forall>c\<in>set cons. con_index_on_domain c < length qs) \<longrightarrow>
      walk_spikes cons sp qs \<noteq> Inl Queue_out_of_range)"
proof (induction sp arbitrary: cons qs)
  case Nil
  then show ?case by (simp add: prefix_queues_refl)
next
  case (Cons s sps)
  show ?case
  proof (cases "cons = []")
    case True
    then show ?thesis by (simp add: prefix_queues_refl)
  next
    case False
    show ?thesis
    proof (cases "equal_range (\<lambda>c. con_source c < source s) (\<lambda>c. source s < con_source c) cons")
      case (Inl e)
      then show ?thesis using False equal_range_error [OF Inl] by simp
    next
      case (Inr r)
      obtain l u where r: "r = (l, u)" by (cases r)
      have sub: "\<forall>c\<in>set cons. con_index_on_domain c < length qs \<Longrightarrow>
          \<forall>c\<in>set (take (u - l) (drop l cons)). con_index_on_domain c < length qs"
        by (meson in_set_takeD in_set_dropD)
      have sub': "\<forall>c\<in>set cons. con_index_on_domain c < length qs \<Longrightarrow>
          \<forall>c\<in>set (drop l cons). con_index_on_domain c < length qs"
        by (meson in_set_dropD)
      show ?thesis
      proof (cases "push_targets (take (u - l) (drop l cons)) s qs")
        case (Inl e)
        then show ?thesis
          using False Inr r sub push_targets_safe [of "take (u - l) (drop l cons)" s qs]
          by auto
      next
        case q1: (Inr q1)
        have p: "list_all2 prefix qs q1"
          using q1 push_targets_safe [of "take (u - l) (drop l cons)" s qs q1] by simp
        then have "length q1 = length qs" by (simp add: list_all2_lengthD)
        then show ?thesis
          using False Inr r q1 p sub' Cons.IH [of "drop l cons" q1]
          by (auto intro: prefix_queues_trans)
      qed
    qed
  qed
qed

lemma domain_step_safe:
  "(domain_step c gs d qs = Inr qs' \<longrightarrow> list_all2 prefix qs qs') \<and>
   ((\<forall>cn\<in>set (connections c). con_index_on_domain cn < length qs) \<longrightarrow>
      domain_step c gs d qs \<noteq> Inl Queue_out_of_range)"
proof -
  have sub: "\<forall>cn\<in>set (connections c). con_index_on_domain cn < length qs \<Longrightarrow>
      \<forall>cn\<in>set (take k (drop l (connections c))). con_index_on_domain cn < length qs" for k l
    by (meson in_set_takeD in_set_dropD)
  show ?thesis
    unfolding domain_step_def Let_def subrange_view_def
    using sub walk_connections_safe walk_spikes_safe
    by (simp split: sum.splits if_splits)
qed

lemma domain_loop_safe:
  "(domain_loop c gs ds qs = Inr qs' \<longrightarrow> list_all2 prefix qs qs') \<and>
   ((\<forall>cn\<in>set (connections c). con_index_on_domain cn < length qs) \<longrightarrow>
      domain_loop c gs ds qs \<noteq> Inl Queue_out_of_range)"
proof (induction ds arbitrary: qs)
  case Nil
  then show ?case by (simp add: prefix_queues_refl)
next
  case (Cons d ds)
  show ?case
  proof (cases "domain_step c gs d qs")
    case (Inl e)
    then show ?thesis using domain_step_safe [of c gs d qs] by auto
  next
    case (Inr q1)
    have p: "list_all2 prefix qs q1"
      using Inr domain_step_safe [of c gs d qs q1] by simp
    then have "length q1 = length qs" by (simp add: list_all2_lengthD)
    then show ?thesis
      using Inr p Cons.IH [of q1] by (auto intro: prefix_queues_trans)
  qed
qed

lemma make_event_queues_safe:
  "(make_event_queues c gs qs = Inr qs' \<longrightarrow> list_all2 prefix qs qs') \<and>
   ((\<forall>cn\<in>set (connections c). con_index_on_domain cn < num_local_cells c) \<longrightarrow>
      make_event_queues c gs qs \<noteq> Inl Queue_out_of_range)"
  using domain_loop_safe [of c gs "[0..<num_domains c]" qs qs']
  by (auto simp: make_event_queues_def)

section \<open>The connection table after construction\<close>

lemma example_ctor:
  "communicator_ctor example_recipe example_decomposition 2 = Inr example_communicator"
  by code_simp

lemma example_gathered_ok: "gathered_ok 2 example_spikes"
  by code_simp


lemma slice_source_domain:
  assumes ctor: "communicator_ctor connections_on dom_dec n = Inr c"
    and d: "d < n" and cn: "cn \<in> set (connection_slice c d)"
  shows "dd_gid_domain dom_dec (gid (con_source cn)) = d"
proof -
  have "cn \<in> set (sort_connections (map placed (bucket dom_dec d (local_items connections_on dom_dec))))"
    using cn built_slice [OF d, of connections_on dom_dec] ctor_built(1) [OF ctor] by simp
  then obtain it where "source_domain dom_dec it = d" "cn = placed it"
    by (auto simp: set_sort_connections bucket_def)
  then show ?thesis by (simp add: source_domain_def placed_def)
qed

text \<open>
  C5: after construction, the connection at position \<open>i\<close> has its source on domain \<open>d\<close>
  if and only if \<open>i\<close> lies in \<open>[connection_part[d], connection_part[d+1])\<close>; and
  \<open>connection_part\<close> has one entry more than there are domains, is non-decreasing,
  starts at 0 and ends at the number of connections.
\<close>

theorem connections_partitioned_by_source_domain:
  assumes ctor: "communicator_ctor connections_on dom_dec n = Inr c"
  shows "(\<forall>i<length (connections c). \<forall>d<n.
            (dd_gid_domain dom_dec (gid (con_source (connections c ! i))) = d) =
            (connection_part c ! d \<le> i \<and> i < connection_part c ! (d + 1))) \<and>
         num_domains c = n \<and>
         length (connection_part c) = num_domains c + 1 \<and>
         sorted (connection_part c) \<and>
         connection_part c ! 0 = 0 \<and>
         connection_part c ! num_domains c = length (connections c)"
proof -
  have n: "num_domains c = n" using ctor_fields(1) [OF ctor] .
  have pok: "partition_ok n (connection_part c) (length (connections c))"
    using ctor_ok [OF ctor] n by (simp add: communicator_ok_def)
  have inside: "dd_gid_domain dom_dec (gid (con_source (connections c ! i))) = d"
    if "d < n" "connection_part c ! d \<le> i" "i < connection_part c ! (d + 1)" for i d
  proof -
    have "connections c ! i \<in> set (connection_slice c d)"
      unfolding connection_slice_def using pok that by (rule slice_member)
    then show ?thesis using slice_source_domain [OF ctor that(1)] by simp
  qed
  have "(dd_gid_domain dom_dec (gid (con_source (connections c ! i))) = d) =
      (connection_part c ! d \<le> i \<and> i < connection_part c ! (d + 1))"
    if i: "i < length (connections c)" and d: "d < n" for i d
  proof
    assume dom: "dd_gid_domain dom_dec (gid (con_source (connections c ! i))) = d"
    obtain d' where d': "d' < n" "connection_part c ! d' \<le> i" "i < connection_part c ! (d' + 1)"
      using partition_cover [OF pok i] by blast
    then have "d' = d" using inside [OF d'] dom by simp
    then show "connection_part c ! d \<le> i \<and> i < connection_part c ! (d + 1)"
      using d' by simp
  next
    assume "connection_part c ! d \<le> i \<and> i < connection_part c ! (d + 1)"
    then show "dd_gid_domain dom_dec (gid (con_source (connections c ! i))) = d"
      using inside [OF d] by simp
  qed
  then show ?thesis using pok n by (simp add: partition_ok_def)
qed

theorem connections_partitioned_by_source_domain_witness:
  "communicator_ctor example_recipe example_decomposition 2 = Inr example_communicator \<and>
   (dd_gid_domain example_decomposition (gid (con_source (connections example_communicator ! 3))) = 1)
     = (connection_part example_communicator ! 1 \<le> 3 \<and> 3 < connection_part example_communicator ! (1 + 1)) \<and>
   (dd_gid_domain example_decomposition (gid (con_source (connections example_communicator ! 3))) = 0)
     = (connection_part example_communicator ! 0 \<le> 3 \<and> 3 < connection_part example_communicator ! (0 + 1)) \<and>
   connection_part example_communicator = [0, 3, 5] \<and>
   length (connections example_communicator) = 5"
proof -
  note t = connections_partitioned_by_source_domain [OF example_ctor]
  have len: "3 < length (connections example_communicator)"
    by (simp add: example_communicator_def)
  have "(dd_gid_domain example_decomposition
           (gid (con_source (connections example_communicator ! 3))) = 1)
     = (connection_part example_communicator ! 1 \<le> 3 \<and>
        3 < connection_part example_communicator ! (1 + 1))"
    using t [THEN conjunct1, rule_format, of 3 1] len by simp
  moreover have "(dd_gid_domain example_decomposition
           (gid (con_source (connections example_communicator ! 3))) = 0)
     = (connection_part example_communicator ! 0 \<le> 3 \<and>
        3 < connection_part example_communicator ! (0 + 1))"
    using t [THEN conjunct1, rule_format, of 3 0] len by simp
  moreover have "connection_part example_communicator = [0, 3, 5]"
    "length (connections example_communicator) = 5"
    by (simp_all add: example_communicator_def)
  ultimately show ?thesis using example_ctor by blast
qed

text \<open>
  C6: after construction, the slice of every domain is sorted by the order of the
  connections, hence non-decreasing in the source, and between two connections of the
  slice with equal sources every connection has that source.
\<close>

theorem slices_sorted:
  assumes ctor: "communicator_ctor connections_on dom_dec n = Inr c" and d: "d < num_domains c"
  shows "connection_slice c d =
           take (connection_part c ! (d + 1) - connection_part c ! d)
             (drop (connection_part c ! d) (connections c)) \<and>
         sorted (map connection_key (connection_slice c d)) \<and>
         sorted (map con_source (connection_slice c d)) \<and>
         (\<forall>i j k. i \<le> j \<and> j \<le> k \<and> k < length (connection_slice c d) \<and>
            con_source (connection_slice c d ! i) = con_source (connection_slice c d ! k) \<longrightarrow>
            con_source (connection_slice c d ! j) = con_source (connection_slice c d ! i))"
proof -
  have dn: "d < n" using d ctor_fields(1) [OF ctor] by simp
  have sl: "connection_slice c d =
      sort_connections (map placed (bucket dom_dec d (local_items connections_on dom_dec)))"
    using built_slice [OF dn, of connections_on dom_dec] ctor_built(1) [OF ctor] by simp
  have key: "sorted (map connection_key (connection_slice c d))"
    unfolding sl by (rule sorted_key_sort_connections)
  have src: "sorted (map con_source (connection_slice c d))"
    using key by (rule sorted_key_source)
  have run: "con_source (connection_slice c d ! j) = con_source (connection_slice c d ! i)"
    if "i \<le> j" "j \<le> k" "k < length (connection_slice c d)"
      "con_source (connection_slice c d ! i) = con_source (connection_slice c d ! k)" for i j k
  proof -
    have "map con_source (connection_slice c d) ! i \<le> map con_source (connection_slice c d) ! j"
      using src that(1,2,3) by (intro sorted_nth_mono) simp_all
    moreover have "map con_source (connection_slice c d) ! j \<le> map con_source (connection_slice c d) ! k"
      using src that(2,3) by (intro sorted_nth_mono) simp_all
    ultimately show ?thesis using that by simp
  qed
  have "connection_slice c d =
      take (connection_part c ! (d + 1) - connection_part c ! d)
        (drop (connection_part c ! d) (connections c))"
    by (simp add: connection_slice_def slice_def)
  then show ?thesis
    using key src run by blast
qed

theorem slices_sorted_witness:
  "communicator_ctor example_recipe example_decomposition 2 = Inr example_communicator \<and>
   (0::nat) < num_domains example_communicator \<and>
   map con_source (connection_slice example_communicator 0) =
     [cell_member_type 0 0, cell_member_type 0 0, cell_member_type 1 0] \<and>
   sorted (map connection_key (connection_slice example_communicator 0)) \<and>
   sorted (map con_source (connection_slice example_communicator 0))"
proof -
  have d: "0 < num_domains example_communicator"
    by (simp add: example_communicator_def)
  have "map con_source (connection_slice example_communicator 0) =
      [cell_member_type 0 0, cell_member_type 0 0, cell_member_type 1 0]"
    by (simp add: connection_slice_def slice_def example_communicator_def)
  then show ?thesis
    using slices_sorted [OF example_ctor d] example_ctor d by blast
qed

lemma placed_of_recipe:
  assumes ctor: "communicator_ctor connections_on dom_dec n = Inr c"
    and cn: "cn \<in> set (connections c)"
  shows "con_index_on_domain cn < length (local_gids dom_dec) \<and>
    (\<exists>cc\<in>set (connections_on (local_gids dom_dec ! con_index_on_domain cn)).
       cn = \<lparr>con_source = cc_source cc, con_destination = cc_dest cc, con_weight = cc_weight cc,
              con_delay = cc_delay cc, con_index_on_domain = con_index_on_domain cn\<rparr>)"
proof -
  have "cn \<in> placed ` {it \<in> set (local_items connections_on dom_dec). source_domain dom_dec it < n}"
    using cn ctor_built(1) [OF ctor] by (simp only: built_connections_set)
  then obtain it where it: "it \<in> set (local_items connections_on dom_dec)" "cn = placed it"
    by blast
  obtain g cc where gc: "it = (g, cc)" by (cases it)
  have "info_index_on_domain g < length (local_gids dom_dec)"
    "cc \<in> set (connections_on (local_gids dom_dec ! info_index_on_domain g))"
    using local_items_index [of g cc connections_on dom_dec] it gc by simp_all
  then show ?thesis using it gc by (auto simp: placed_def)
qed

text \<open>
  C10: every connection the constructor stores comes from the connections of the cell at
  position \<open>index_on_domain\<close> of the flat gid sequence, and that position is below
  \<open>num_local_cells\<close>; so with \<open>queues.size() = num_local_cells\<close> no access
  \<open>queues[index_on_domain]\<close> of \<open>make_event_queues\<close> is out of range, whatever the spikes,
  and with gathered spikes as \<open>exchange\<close> returns them the call fails nowhere.
\<close>

theorem index_on_domain_in_bounds:
  assumes ctor: "communicator_ctor connections_on dom_dec n = Inr c"
  shows "(\<forall>cn\<in>set (connections c).
            con_index_on_domain cn < length (local_gids dom_dec) \<and>
            con_index_on_domain cn < num_local_cells c \<and>
            (\<exists>cc\<in>set (connections_on (local_gids dom_dec ! con_index_on_domain cn)).
               cn = \<lparr>con_source = cc_source cc, con_destination = cc_dest cc,
                      con_weight = cc_weight cc, con_delay = cc_delay cc,
                      con_index_on_domain = con_index_on_domain cn\<rparr>)) \<and>
         (\<forall>gs qs. length qs = num_local_cells c \<longrightarrow>
            make_event_queues c gs qs \<noteq> Inl Queue_out_of_range) \<and>
         (\<forall>gs qs. length qs = num_local_cells c \<and> gathered_ok (num_domains c) gs \<longrightarrow>
            (\<exists>qs'. make_event_queues c gs qs = Inr qs'))"
proof -
  have ok: "communicator_ok c" using ctor by (rule ctor_ok)
  then have idx: "\<forall>cn\<in>set (connections c). con_index_on_domain cn < num_local_cells c"
    by (simp add: communicator_ok_def)
  have a: "\<forall>cn\<in>set (connections c).
      con_index_on_domain cn < length (local_gids dom_dec) \<and>
      con_index_on_domain cn < num_local_cells c \<and>
      (\<exists>cc\<in>set (connections_on (local_gids dom_dec ! con_index_on_domain cn)).
         cn = \<lparr>con_source = cc_source cc, con_destination = cc_dest cc,
                con_weight = cc_weight cc, con_delay = cc_delay cc,
                con_index_on_domain = con_index_on_domain cn\<rparr>)"
    using placed_of_recipe [OF ctor] idx by blast
  have b: "\<forall>gs qs. length qs = num_local_cells c \<longrightarrow>
      make_event_queues c gs qs \<noteq> Inl Queue_out_of_range"
    using make_event_queues_safe idx by blast
  have c: "\<forall>gs qs. length qs = num_local_cells c \<and> gathered_ok (num_domains c) gs \<longrightarrow>
      (\<exists>qs'. make_event_queues c gs qs = Inr qs')"
    using make_event_queues_deliver [OF ok] by blast
  show ?thesis using a b c by blast
qed

lemma example_queue_length: "length [[], [] :: pse_vector] = num_local_cells example_communicator"
  by (simp add: example_communicator_def)

lemma example_gathered_ok': "gathered_ok (num_domains example_communicator) example_spikes"
  using example_gathered_ok by (simp add: example_communicator_def)

theorem index_on_domain_in_bounds_witness:
  "communicator_ctor example_recipe example_decomposition 2 = Inr example_communicator \<and>
   con_index_on_domain (connections example_communicator ! 2) < num_local_cells example_communicator \<and>
   length [[], [] :: pse_vector] = num_local_cells example_communicator \<and>
   gathered_ok (num_domains example_communicator) example_spikes \<and>
   make_event_queues example_communicator example_spikes [[], []] \<noteq> Inl Queue_out_of_range \<and>
   (\<exists>qs'. make_event_queues example_communicator example_spikes [[], []] = Inr qs')"
proof -
  note t = index_on_domain_in_bounds [OF example_ctor]
  have "connections example_communicator ! 2 \<in> set (connections example_communicator)"
    by (simp add: example_communicator_def)
  then have "con_index_on_domain (connections example_communicator ! 2)
      < num_local_cells example_communicator"
    using t by blast
  then show ?thesis
    using t example_ctor example_queue_length example_gathered_ok' by blast
qed

section \<open>What make_event_queues delivers\<close>

lemma domain_step_no_spikes:
  "gv_values gs = [] \<Longrightarrow> domain_step c gs d qs = Inr qs' \<Longrightarrow> qs' = qs"
  by (auto simp: domain_step_def subrange_view_def Let_def split: if_splits sum.splits)

lemma domain_loop_no_spikes:
  "gv_values gs = [] \<Longrightarrow> domain_loop c gs ds qs = Inr qs' \<Longrightarrow> qs' = qs"
proof (induction ds arbitrary: qs)
  case Nil
  then show ?case by simp
next
  case (Cons d ds)
  then show ?case
    by (auto split: sum.splits dest: domain_step_no_spikes)
qed

lemma make_event_queues_no_spikes:
  "gv_values gs = [] \<Longrightarrow> make_event_queues c gs qs = Inr qs' \<Longrightarrow> qs' = qs"
  by (auto simp: make_event_queues_def split: if_splits dest: domain_loop_no_spikes)

text \<open>
  C9: \<open>make_event_queues\<close> only appends to the queues: on a communicator the constructor
  built, with as many queues as local cells and gathered spikes as \<open>exchange\<close> returns
  them, the call returns, and every queue it returns starts with the queue it was given;
  with no spikes at all the queues are returned unchanged. Any call that returns does so.
\<close>

theorem make_event_queues_only_appends:
  assumes ctor: "communicator_ctor connections_on dom_dec n = Inr c"
    and len: "length qs = num_local_cells c"
    and gs: "gathered_ok (num_domains c) gs"
  shows "(\<exists>qs'. make_event_queues c gs qs = Inr qs' \<and> length qs' = length qs \<and>
            (\<forall>i<length qs. prefix (qs ! i) (qs' ! i)) \<and>
            (gv_values gs = [] \<longrightarrow> qs' = qs)) \<and>
         (\<forall>c0 gs0 qs0 qs1. make_event_queues c0 gs0 qs0 = Inr qs1 \<longrightarrow>
            length qs1 = length qs0 \<and> (\<forall>i<length qs0. prefix (qs0 ! i) (qs1 ! i)) \<and>
            (gv_values gs0 = [] \<longrightarrow> qs1 = qs0))"
proof -
  have gen: "length qs1 = length qs0 \<and> (\<forall>i<length qs0. prefix (qs0 ! i) (qs1 ! i)) \<and>
      (gv_values gs0 = [] \<longrightarrow> qs1 = qs0)"
    if r: "make_event_queues c0 gs0 qs0 = Inr qs1" for c0 gs0 qs0 qs1
  proof -
    have "list_all2 prefix qs0 qs1"
      using make_event_queues_safe [of c0 gs0 qs0 qs1] r by simp
    then have "length qs1 = length qs0" "\<forall>i<length qs0. prefix (qs0 ! i) (qs1 ! i)"
      by (simp_all add: list_all2_conv_all_nth)
    then show ?thesis using make_event_queues_no_spikes [OF _ r] by blast
  qed
  obtain qs' where r: "make_event_queues c gs qs = Inr qs'"
    using make_event_queues_deliver [OF ctor_ok [OF ctor] gs len] by blast
  show ?thesis using r gen [OF r] gen by blast
qed

lemma example_run:
  "make_event_queues example_communicator example_spikes [[example_event], []] = Inr example_queues"
  by code_simp

lemma example_run_connections_outer:
  "make_event_queues_by (\<lambda>d. True) example_communicator example_spikes [[example_event], []] =
     Inr example_queues_connections_outer"
  by code_simp

lemma example_run_spikes_outer:
  "make_event_queues_by (\<lambda>d. False) example_communicator example_spikes [[example_event], []] =
     Inr example_queues"
  by code_simp

lemma example_preloaded_length:
  "length [[example_event], []] = num_local_cells example_communicator"
  by (simp add: example_communicator_def)

theorem make_event_queues_only_appends_witness:
  "communicator_ctor example_recipe example_decomposition 2 = Inr example_communicator \<and>
   length [[example_event], []] = num_local_cells example_communicator \<and>
   gathered_ok (num_domains example_communicator) example_spikes \<and>
   make_event_queues example_communicator example_spikes [[example_event], []] = Inr example_queues \<and>
   prefix [example_event] (example_queues ! 0) \<and> prefix [] (example_queues ! 1)"
proof -
  note t = make_event_queues_only_appends
    [OF example_ctor example_preloaded_length example_gathered_ok', THEN conjunct1]
  then obtain qs' where
    "make_event_queues example_communicator example_spikes [[example_event], []] = Inr qs'"
    "\<forall>i<length [[example_event], []]. prefix ([[example_event], []] ! i) (qs' ! i)"
    by blast
  then have all: "\<forall>i<length [[example_event], []].
      prefix ([[example_event], []] ! i) (example_queues ! i)"
    using example_run by simp
  have "prefix [example_event] (example_queues ! 0)"
    using all [rule_format, of 0] by simp
  moreover have "prefix [] (example_queues ! 1)"
    by simp
  ultimately have "prefix [example_event] (example_queues ! 0)" "prefix [] (example_queues ! 1)"
    by blast+
  then show ?thesis
    using example_ctor example_preloaded_length example_gathered_ok' example_run by blast
qed

lemma set_matching_pairs:
  "set (matching_pairs cons spks) =
     {(cn, s). cn \<in> set cons \<and> s \<in> set spks \<and> con_source cn = source s}"
  by (auto simp: matching_pairs_def)

lemma set_domain_pairs_by:
  "set (domain_pairs_by f c gs d) =
     {(cn, s). cn \<in> set (connection_slice c d) \<and> s \<in> set (spike_slice gs d) \<and>
        con_source cn = source s}"
proof -
  have "set (domain_pairs_by f c gs d) =
      set (matching_pairs (connection_slice c d) (spike_slice gs d))"
    using mset_domain_pairs_by [of f c gs d] by (rule mset_eq_setD)
  then show ?thesis by (simp only: set_matching_pairs)
qed

lemma matched_pairs_by_members:
  assumes "(cn, s) \<in> set (matched_pairs_by f c gs)"
  shows "con_source cn = source s \<and> cn \<in> set (connections c) \<and> s \<in> set (gv_values gs)"
proof -
  obtain d where "(cn, s) \<in> set (domain_pairs_by f c gs d)"
    using assms by (auto simp: matched_pairs_by_def)
  then have "cn \<in> set (connection_slice c d)" "s \<in> set (spike_slice gs d)"
    "con_source cn = source s"
    by (simp_all add: set_domain_pairs_by)
  then show ?thesis
    using set_slice_subset [of "connection_part c" "connections c" d]
      set_slice_subset [of "gv_partition gs" "gv_values gs" d]
    by (auto simp: connection_slice_def spike_slice_def)
qed

lemma deliver_count:
  assumes "\<forall>(cn, s)\<in>set ps. con_index_on_domain cn < length qs"
  shows "sum_list (map (\<lambda>i. length (deliver ps qs ! i) - length (qs ! i)) [0..<length qs]) =
    length ps"
proof -
  have eq: "map (\<lambda>i. length (deliver ps qs ! i) - length (qs ! i)) [0..<length qs] =
      map (\<lambda>i. length (filter (\<lambda>p. con_index_on_domain (fst p) = i) ps)) [0..<length qs]"
    by (rule map_cong [OF refl]) (simp add: deliver_nth case_prod_unfold)
  have "sum_list (map (\<lambda>i. length (filter (\<lambda>p. con_index_on_domain (fst p) = i) ps))
      [0..<length qs]) = length ps"
    using assms by (intro sum_bucket_sizes) auto
  then show ?thesis by (simp only: eq)
qed

text \<open>
  C2: \<open>make_event_queues\<close> returns the queues with, for every matched pair of a connection
  and a spike, the event \<open>make_event\<close> of the pair appended to the queue at the
  connection's \<open>index_on_domain\<close>, in the order the pairs are found: one event per pair
  and no other event. A matched pair is a connection of the table and a gathered spike
  with the same source, and the time of its event is the time of the spike plus the delay
  of the connection.
\<close>

theorem one_event_per_matched_pair:
  assumes ctor: "communicator_ctor connections_on dom_dec n = Inr c"
    and len: "length qs = num_local_cells c"
    and gs: "gathered_ok (num_domains c) gs"
  shows "make_event_queues c gs qs = Inr (deliver (matched_pairs c gs) qs) \<and>
         length (deliver (matched_pairs c gs) qs) = length qs \<and>
         (\<forall>i<length qs.
            deliver (matched_pairs c gs) qs ! i =
              qs ! i @ map (\<lambda>(cn, s). make_event cn s)
                         (filter (\<lambda>(cn, s). con_index_on_domain cn = i) (matched_pairs c gs))) \<and>
         sum_list (map (\<lambda>i. length (deliver (matched_pairs c gs) qs ! i) - length (qs ! i))
           [0..<length qs]) = length (matched_pairs c gs) \<and>
         (\<forall>(cn, s)\<in>set (matched_pairs c gs).
            con_source cn = source s \<and> cn \<in> set (connections c) \<and> s \<in> set (gv_values gs) \<and>
            con_index_on_domain cn < length qs \<and>
            ev_time (make_event cn s) = time s + con_delay cn) \<and>
         (\<forall>cn s t dl. time s = Finite t \<and> con_delay cn = Finite dl \<longrightarrow>
            ev_time (make_event cn s) = Finite (t + dl))"
proof -
  have ok: "communicator_ok c" using ctor by (rule ctor_ok)
  have run: "make_event_queues c gs qs = Inr (deliver (matched_pairs c gs) qs)"
    using ok gs len by (rule make_event_queues_deliver)
  have idx: "\<forall>cn\<in>set (connections c). con_index_on_domain cn < length qs"
    using ok len by (simp add: communicator_ok_def)
  have mem: "\<forall>(cn, s)\<in>set (matched_pairs c gs).
      con_source cn = source s \<and> cn \<in> set (connections c) \<and> s \<in> set (gv_values gs) \<and>
      con_index_on_domain cn < length qs \<and>
      ev_time (make_event cn s) = time s + con_delay cn"
    using matched_pairs_by_members [of _ _ "fewer_connections c gs" c gs] idx
    by (auto simp: matched_pairs_def make_event_def)
  then have "\<forall>(cn, s)\<in>set (matched_pairs c gs). con_index_on_domain cn < length qs"
    by blast
  then have cnt: "sum_list (map (\<lambda>i. length (deliver (matched_pairs c gs) qs ! i) - length (qs ! i))
      [0..<length qs]) = length (matched_pairs c gs)"
    by (rule deliver_count)
  have tm: "\<forall>cn s t dl. time s = Finite t \<and> con_delay cn = Finite dl \<longrightarrow>
      ev_time (make_event cn s) = Finite (t + dl)"
    by (simp add: make_event_def)
  show ?thesis
    using run cnt mem tm by (simp add: length_deliver deliver_nth)
qed


lemma example_matched_length: "length (matched_pairs example_communicator example_spikes) = 8"
  by code_simp

lemma example_times:
  "time (gv_values example_spikes ! 1) = Finite 12"
  "con_delay (connections example_communicator ! 0) = Finite 1"
  by (simp_all add: example_spikes_def example_communicator_def)

theorem one_event_per_matched_pair_witness:
  "communicator_ctor example_recipe example_decomposition 2 = Inr example_communicator \<and>
   length [[example_event], []] = num_local_cells example_communicator \<and>
   gathered_ok (num_domains example_communicator) example_spikes \<and>
   make_event_queues example_communicator example_spikes [[example_event], []] = Inr example_queues \<and>
   deliver (matched_pairs example_communicator example_spikes) [[example_event], []] = example_queues \<and>
   length (matched_pairs example_communicator example_spikes) = 8 \<and>
   ev_time (make_event (connections example_communicator ! 0) (gv_values example_spikes ! 1)) =
     Finite 13"
proof -
  note t = one_event_per_matched_pair
    [OF example_ctor example_preloaded_length example_gathered_ok']
  have "deliver (matched_pairs example_communicator example_spikes) [[example_event], []] =
      example_queues"
    using t example_run by simp
  moreover have "ev_time (make_event (connections example_communicator ! 0)
      (gv_values example_spikes ! 1)) = Finite (12 + 1)"
    using t example_times by blast
  ultimately show ?thesis
    using example_ctor example_preloaded_length example_gathered_ok' example_run
      example_matched_length
    by simp
qed

lemma domain_loop_plain:
  "domain_loop c gs ds qs = for_each (domain_step c gs) ds qs"
  by (induction ds arbitrary: qs) (simp_all split: sum.splits)

lemma matched_pairs_unfold:
  "matched_pairs c gs =
     concat (map (\<lambda>d. if length (connection_slice c d) < length (spike_slice gs d)
                        then pairs_by_connection (connection_slice c d) (spike_slice gs d)
                        else pairs_by_spike (connection_slice c d) (spike_slice gs d))
       [0..<num_domains c])"
proof -
  have "domain_pairs_by (fewer_connections c gs) c gs =
      (\<lambda>d. if length (connection_slice c d) < length (spike_slice gs d)
            then pairs_by_connection (connection_slice c d) (spike_slice gs d)
            else pairs_by_spike (connection_slice c d) (spike_slice gs d))"
    by (simp add: fun_eq_iff domain_pairs_by_def fewer_connections_def)
  then show ?thesis by (simp add: matched_pairs_def matched_pairs_by_def)
qed

lemma mset_matched_pairs_all:
  "mset (matched_pairs c gs) =
     mset (concat (map (\<lambda>d. matching_pairs (connection_slice c d) (spike_slice gs d))
       [0..<num_domains c]))"
  by (simp add: matched_pairs_def matched_pairs_by_def mset_concat mset_domain_pairs_by comp_def)

text \<open>
  C3: \<open>make_event_queues\<close> runs the loop body for every source domain, in the order of the
  domains. For a domain whose slice of connections and slice of spikes are sorted by source,
  the loop body takes the loop over the connections when there are fewer connections than
  spikes and the loop over the spikes otherwise; \<open>equal_range\<close> finds, for any source, the
  spikes of exactly that source; the first loop delivers the pairs with equal sources
  connection by connection, the second spike by spike; and either way every connection
  is paired exactly once with every spike of the same source. So \<open>make_event_queues\<close>
  delivers, domain after domain, the pairs of the loop it takes for the domain, and over
  all the domains every connection of a slice is paired exactly once with every spike of
  the same source in the slice of spikes of that domain.
\<close>

theorem merge_join_of_a_domain:
  assumes ok: "communicator_ok c" and gs: "gathered_ok (num_domains c) gs"
    and d: "d < num_domains c" and len: "length qs = num_local_cells c"
  shows "sorted (map con_source (connection_slice c d)) \<and>
         sorted (map source (spike_slice gs d)) \<and>
         domain_step c gs d qs =
           (if length (connection_slice c d) < length (spike_slice gs d)
            then walk_connections (connection_slice c d) (spike_slice gs d) qs
            else walk_spikes (connection_slice c d) (spike_slice gs d) qs) \<and>
         (\<forall>v. \<exists>first second.
            equal_range (\<lambda>spk. source spk < v) (\<lambda>spk. v < source spk) (spike_slice gs d) =
              Inr (first, second) \<and>
            take (second - first) (drop first (spike_slice gs d)) =
              filter (\<lambda>s. source s = v) (spike_slice gs d)) \<and>
         (\<forall>v. \<exists>first second.
            equal_range (\<lambda>cn. con_source cn < v) (\<lambda>cn. v < con_source cn) (connection_slice c d) =
              Inr (first, second) \<and>
            take (second - first) (drop first (connection_slice c d)) =
              filter (\<lambda>cn. con_source cn = v) (connection_slice c d)) \<and>
         walk_connections (connection_slice c d) (spike_slice gs d) qs =
           Inr (deliver
                 (concat (map (\<lambda>cn. map (Pair cn)
                    (filter (\<lambda>s. source s = con_source cn) (spike_slice gs d)))
                    (connection_slice c d))) qs) \<and>
         walk_spikes (connection_slice c d) (spike_slice gs d) qs =
           Inr (deliver
                 (concat (map (\<lambda>s. map (\<lambda>cn. (cn, s))
                    (filter (\<lambda>cn. con_source cn = source s) (connection_slice c d)))
                    (spike_slice gs d))) qs) \<and>
         mset (pairs_by_connection (connection_slice c d) (spike_slice gs d)) =
           mset (filter (\<lambda>(cn, s). con_source cn = source s)
                   (List.product (connection_slice c d) (spike_slice gs d))) \<and>
         mset (pairs_by_spike (connection_slice c d) (spike_slice gs d)) =
           mset (filter (\<lambda>(cn, s). con_source cn = source s)
                   (List.product (connection_slice c d) (spike_slice gs d))) \<and>
         make_event_queues c gs qs = for_each (domain_step c gs) [0..<num_domains c] qs \<and>
         make_event_queues c gs qs =
           Inr (deliver
                 (concat (map (\<lambda>k. if length (connection_slice c k) < length (spike_slice gs k)
                                    then pairs_by_connection (connection_slice c k) (spike_slice gs k)
                                    else pairs_by_spike (connection_slice c k) (spike_slice gs k))
                    [0..<num_domains c])) qs) \<and>
         mset (concat (map (\<lambda>k. if length (connection_slice c k) < length (spike_slice gs k)
                                 then pairs_by_connection (connection_slice c k) (spike_slice gs k)
                                 else pairs_by_spike (connection_slice c k) (spike_slice gs k))
                 [0..<num_domains c])) =
           mset (concat (map (\<lambda>k. filter (\<lambda>(cn, s). con_source cn = source s)
                                   (List.product (connection_slice c k) (spike_slice gs k)))
                   [0..<num_domains c]))"
proof -
  let ?cons = "connection_slice c d" and ?spks = "spike_slice gs d"
  let ?all = "concat (map (\<lambda>k. if length (connection_slice c k) < length (spike_slice gs k)
                                 then pairs_by_connection (connection_slice c k) (spike_slice gs k)
                                 else pairs_by_spike (connection_slice c k) (spike_slice gs k))
                 [0..<num_domains c])"
  have loop: "make_event_queues c gs qs = for_each (domain_step c gs) [0..<num_domains c] qs"
    using len by (simp add: make_event_queues_def domain_loop_plain)
  have run: "make_event_queues c gs qs = Inr (deliver ?all qs)"
    using make_event_queues_deliver [OF ok gs len] by (simp only: matched_pairs_unfold)
  have every: "mset ?all =
      mset (concat (map (\<lambda>k. filter (\<lambda>(cn, s). con_source cn = source s)
                              (List.product (connection_slice c k) (spike_slice gs k)))
              [0..<num_domains c]))"
    using mset_matched_pairs_all [of c gs]
    by (simp only: matched_pairs_unfold matching_pairs_def)
  have pc: "partition_ok (num_domains c) (connection_part c) (length (connections c))"
    and sc: "sorted (map con_source ?cons)"
    and ic: "\<forall>cn\<in>set (connections c). con_index_on_domain cn < length qs"
    using ok d len by (simp_all add: communicator_ok_def)
  have pg: "partition_ok (num_domains c) (gv_partition gs) (length (gv_values gs))"
    and sg: "sorted (map source ?spks)"
    using gs d by (simp_all add: gathered_ok_def)
  have idx: "\<forall>cn\<in>set ?cons. con_index_on_domain cn < length qs"
    using ic set_slice_subset [of "connection_part c" "connections c" d]
    by (auto simp: connection_slice_def)
  have v1: "subrange_view (connections c) (connection_part c ! d) (connection_part c ! (d + 1))
      = Inr ?cons"
    using subrange_view_slice [OF pc d] by (simp add: connection_slice_def)
  have v2: "subrange_view (gv_values gs) (gv_partition gs ! d) (gv_partition gs ! (d + 1))
      = Inr ?spks"
    using subrange_view_slice [OF pg d] by (simp add: spike_slice_def)
  have b: "d + 1 < length (connection_part c)" "d + 1 < length (gv_partition gs)"
    using partition_ok_bounds(3) [OF pc d] partition_ok_bounds(3) [OF pg d] by simp_all
  have step: "domain_step c gs d qs =
      (if length ?cons < length ?spks then walk_connections ?cons ?spks qs
       else walk_spikes ?cons ?spks qs)"
    unfolding domain_step_def Let_def using b v1 v2 by simp
  have es: "\<forall>v. \<exists>first second.
      equal_range (\<lambda>spk. source spk < v) (\<lambda>spk. v < source spk) ?spks = Inr (first, second) \<and>
      take (second - first) (drop first ?spks) = filter (\<lambda>s. source s = v) ?spks"
    using equal_range_sorted [OF sg] range_is_filter [OF sg] by blast
  have ec: "\<forall>v. \<exists>first second.
      equal_range (\<lambda>cn. con_source cn < v) (\<lambda>cn. v < con_source cn) ?cons = Inr (first, second) \<and>
      take (second - first) (drop first ?cons) = filter (\<lambda>cn. con_source cn = v) ?cons"
    using equal_range_sorted [OF sc] range_is_filter [OF sc] by blast
  have wc: "walk_connections ?cons ?spks qs = Inr (deliver (pairs_by_connection ?cons ?spks) qs)"
    using walk_connections_deliver [OF sc sg idx, of "[]"] by (simp add: deliver_Nil)
  have ws: "walk_spikes ?cons ?spks qs = Inr (deliver (pairs_by_spike ?cons ?spks) qs)"
    using walk_spikes_deliver [OF sc sg idx, of "[]"] by (simp add: deliver_Nil)
  have m1: "mset (pairs_by_connection ?cons ?spks) =
      mset (filter (\<lambda>(cn, s). con_source cn = source s) (List.product ?cons ?spks))"
    by (simp add: pairs_by_connection_product matching_pairs_def)
  have m2: "mset (pairs_by_spike ?cons ?spks) =
      mset (filter (\<lambda>(cn, s). con_source cn = source s) (List.product ?cons ?spks))"
    using mset_pairs_by_spike [of ?cons ?spks] by (simp only: matching_pairs_def)
  have dom: "sorted (map con_source ?cons) \<and> sorted (map source ?spks) \<and>
      domain_step c gs d qs =
        (if length ?cons < length ?spks then walk_connections ?cons ?spks qs
         else walk_spikes ?cons ?spks qs) \<and>
      (\<forall>v. \<exists>first second.
         equal_range (\<lambda>spk. source spk < v) (\<lambda>spk. v < source spk) ?spks = Inr (first, second) \<and>
         take (second - first) (drop first ?spks) = filter (\<lambda>s. source s = v) ?spks) \<and>
      (\<forall>v. \<exists>first second.
         equal_range (\<lambda>cn. con_source cn < v) (\<lambda>cn. v < con_source cn) ?cons = Inr (first, second) \<and>
         take (second - first) (drop first ?cons) = filter (\<lambda>cn. con_source cn = v) ?cons) \<and>
      walk_connections ?cons ?spks qs =
        Inr (deliver
              (concat (map (\<lambda>cn. map (Pair cn) (filter (\<lambda>s. source s = con_source cn) ?spks))
                 ?cons)) qs) \<and>
      walk_spikes ?cons ?spks qs =
        Inr (deliver
              (concat (map (\<lambda>s. map (\<lambda>cn. (cn, s)) (filter (\<lambda>cn. con_source cn = source s) ?cons))
                 ?spks)) qs)"
    using sc sg step es ec wc ws
    unfolding pairs_by_connection_def pairs_by_spike_def by blast
  show ?thesis
    using dom m1 m2 loop run every by blast
qed

lemma example_ok: "communicator_ok example_communicator"
  using example_ctor by (rule ctor_ok)

lemma example_slice_sizes:
  "length (connection_slice example_communicator 1) < length (spike_slice example_spikes 1)"
  "\<not> length (connection_slice example_communicator 0) < length (spike_slice example_spikes 0)"
  by (simp_all add: connection_slice_def spike_slice_def slice_def example_communicator_def
      example_spikes_def)

lemma example_domains: "0 < num_domains example_communicator" "1 < num_domains example_communicator"
  by (simp_all add: example_communicator_def)

theorem merge_join_of_a_domain_witness:
  "communicator_ok example_communicator \<and>
   gathered_ok (num_domains example_communicator) example_spikes \<and>
   (1::nat) < num_domains example_communicator \<and>
   length [[example_event], []] = num_local_cells example_communicator \<and>
   length (connection_slice example_communicator 1) < length (spike_slice example_spikes 1) \<and>
   domain_step example_communicator example_spikes 1 [[example_event], []] =
     walk_connections (connection_slice example_communicator 1) (spike_slice example_spikes 1)
       [[example_event], []] \<and>
   \<not> length (connection_slice example_communicator 0) < length (spike_slice example_spikes 0) \<and>
   domain_step example_communicator example_spikes 0 [[example_event], []] =
     walk_spikes (connection_slice example_communicator 0) (spike_slice example_spikes 0)
       [[example_event], []] \<and>
   sorted (map source (spike_slice example_spikes 0)) \<and>
   make_event_queues example_communicator example_spikes [[example_event], []] =
     for_each (domain_step example_communicator example_spikes)
       [0..<num_domains example_communicator] [[example_event], []] \<and>
   for_each (domain_step example_communicator example_spikes)
     [0..<num_domains example_communicator] [[example_event], []] = Inr example_queues"
proof -
  note t0 = merge_join_of_a_domain
    [OF example_ok example_gathered_ok' example_domains(1) example_preloaded_length]
  note t1 = merge_join_of_a_domain
    [OF example_ok example_gathered_ok' example_domains(2) example_preloaded_length]
  have "domain_step example_communicator example_spikes 1 [[example_event], []] =
      walk_connections (connection_slice example_communicator 1) (spike_slice example_spikes 1)
        [[example_event], []]"
    using t1 example_slice_sizes(1) by simp
  moreover have "domain_step example_communicator example_spikes 0 [[example_event], []] =
      walk_spikes (connection_slice example_communicator 0) (spike_slice example_spikes 0)
        [[example_event], []]"
    using t0 example_slice_sizes(2) by simp
  moreover have "sorted (map source (spike_slice example_spikes 0))"
    using t0 by blast
  moreover have loop: "make_event_queues example_communicator example_spikes [[example_event], []] =
      for_each (domain_step example_communicator example_spikes)
        [0..<num_domains example_communicator] [[example_event], []]"
    using t0 by blast
  moreover have "for_each (domain_step example_communicator example_spikes)
      [0..<num_domains example_communicator] [[example_event], []] = Inr example_queues"
    using loop example_run by (simp only:)
  ultimately show ?thesis
    using example_ok example_gathered_ok' example_domains(2) example_preloaded_length
      example_slice_sizes
    by blast
qed

lemma mset_concat_nth:
  assumes "length xs = length ys" "\<forall>i<length xs. mset (xs ! i) = mset (ys ! i)"
  shows "mset (concat xs) = mset (concat ys)"
proof -
  have "map mset xs = map mset ys"
    using assms by (intro nth_equalityI) simp_all
  then show ?thesis by (simp add: mset_concat)
qed

text \<open>
  C4: on a communicator the constructor built, with as many queues as local cells and
  gathered spikes as \<open>exchange\<close> returns them, whichever loop is taken for each domain
  (\<open>f\<close> and \<open>g\<close> choose), the call returns, and the events appended to each queue, and
  so the events in all the queues, are the same as multisets. \<open>make_event_queues\<close> is the
  choice of the loop over the connections where a domain has fewer connections than
  spikes.
\<close>

theorem strategy_independence:
  assumes ctor: "communicator_ctor connections_on dom_dec n = Inr c"
    and len: "length qs = num_local_cells c"
    and gs: "gathered_ok (num_domains c) gs"
  shows "(\<exists>qf qg.
            make_event_queues_by f c gs qs = Inr qf \<and>
            make_event_queues_by g c gs qs = Inr qg \<and>
            length qf = length qs \<and> length qg = length qs \<and>
            (\<forall>i<length qs. \<exists>ef eg.
               qf ! i = qs ! i @ ef \<and> qg ! i = qs ! i @ eg \<and> mset ef = mset eg) \<and>
            mset (concat qf) = mset (concat qg)) \<and>
         make_event_queues c gs qs = make_event_queues_by (fewer_connections c gs) c gs qs \<and>
         (\<forall>d. fewer_connections c gs d =
            (length (connection_slice c d) < length (spike_slice gs d)))"
proof -
  have ok: "communicator_ok c" using ctor by (rule ctor_ok)
  define qf where "qf = deliver (matched_pairs_by f c gs) qs"
  define qg where "qg = deliver (matched_pairs_by g c gs) qs"
  have rf: "make_event_queues_by f c gs qs = Inr qf"
    unfolding qf_def using ok gs len by (rule make_event_queues_by_deliver)
  have rg: "make_event_queues_by g c gs qs = Inr qg"
    unfolding qg_def using ok gs len by (rule make_event_queues_by_deliver)
  have lf: "length qf = length qs" and lg: "length qg = length qs"
    by (simp_all add: qf_def qg_def length_deliver)
  have ms: "mset (matched_pairs_by f c gs) = mset (matched_pairs_by g c gs)"
    by (rule mset_matched_pairs_by)
  have each: "\<exists>ef eg. qf ! i = qs ! i @ ef \<and> qg ! i = qs ! i @ eg \<and> mset ef = mset eg"
    if i: "i < length qs" for i
  proof (intro exI conjI)
    show "qf ! i = qs ! i @ map (\<lambda>(cn, s). make_event cn s)
        (filter (\<lambda>(cn, s). con_index_on_domain cn = i) (matched_pairs_by f c gs))"
      using i by (simp add: qf_def deliver_nth)
    show "qg ! i = qs ! i @ map (\<lambda>(cn, s). make_event cn s)
        (filter (\<lambda>(cn, s). con_index_on_domain cn = i) (matched_pairs_by g c gs))"
      using i by (simp add: qg_def deliver_nth)
    show "mset (map (\<lambda>(cn, s). make_event cn s)
          (filter (\<lambda>(cn, s). con_index_on_domain cn = i) (matched_pairs_by f c gs))) =
        mset (map (\<lambda>(cn, s). make_event cn s)
          (filter (\<lambda>(cn, s). con_index_on_domain cn = i) (matched_pairs_by g c gs)))"
      using ms by simp
  qed
  have "\<forall>i<length qf. mset (qf ! i) = mset (qg ! i)"
    using mset_deliver_nth [OF ms] lf by (simp add: qf_def qg_def)
  then have all: "mset (concat qf) = mset (concat qg)"
    using lf lg by (intro mset_concat_nth) simp_all
  have "\<forall>d. fewer_connections c gs d =
      (length (connection_slice c d) < length (spike_slice gs d))"
    by (simp add: fewer_connections_def)
  then show ?thesis
    using rf rg lf lg each all make_event_queues_by_fewer [of c gs qs] by blast
qed

lemma example_orders_differ: "example_queues_connections_outer \<noteq> example_queues"
  by (simp add: example_queues_connections_outer_def example_queues_def)

theorem strategy_independence_witness:
  "communicator_ctor example_recipe example_decomposition 2 = Inr example_communicator \<and>
   length [[example_event], []] = num_local_cells example_communicator \<and>
   gathered_ok (num_domains example_communicator) example_spikes \<and>
   make_event_queues_by (\<lambda>d. True) example_communicator example_spikes [[example_event], []] =
     Inr example_queues_connections_outer \<and>
   make_event_queues_by (\<lambda>d. False) example_communicator example_spikes [[example_event], []] =
     Inr example_queues \<and>
   example_queues_connections_outer \<noteq> example_queues \<and>
   mset (concat example_queues_connections_outer) = mset (concat example_queues)"
proof -
  note t = strategy_independence
    [OF example_ctor example_preloaded_length example_gathered_ok',
      of "\<lambda>d. True" "\<lambda>d. False", THEN conjunct1]
  then have "mset (concat example_queues_connections_outer) = mset (concat example_queues)"
    using example_run_connections_outer example_run_spikes_outer by auto
  then show ?thesis
    using example_ctor example_preloaded_length example_gathered_ok'
      example_run_connections_outer example_run_spikes_outer example_orders_differ
    by blast
qed

text \<open>
  Without the order of the spikes the two loops differ. For \<open>unsorted_spikes\<close> three
  pairs of a connection and a spike of domain 0 have equal sources; the loop over the
  spikes delivers one event, as its search starts behind the connections of \<open>(0,0)\<close>
  once the spike of \<open>(1,0)\<close> has been seen; the loop over the connections searches a
  range of spikes that is not partitioned, which \<open>std::equal_range\<close> leaves undefined.
\<close>

theorem strategy_unsorted_spikes_counterexample:
  "communicator_ctor example_recipe example_decomposition 2 = Inr example_communicator \<and>
   length [[], [] :: pse_vector] = num_local_cells example_communicator \<and>
   partition_ok (num_domains example_communicator) (gv_partition unsorted_spikes)
     (length (gv_values unsorted_spikes)) \<and>
   length (matching_pairs (connection_slice example_communicator 0)
     (spike_slice unsorted_spikes 0)) = 3 \<and>
   make_event_queues_by always_spikes example_communicator unsorted_spikes [[], []] =
     Inr [[], [\<lparr>ev_target = 0, ev_weight = 4, ev_time = Finite 16\<rparr>]] \<and>
   make_event_queues_by always_connections example_communicator unsorted_spikes [[], []] =
     Inl Unsorted_range"
proof (intro conjI)
  show "communicator_ctor example_recipe example_decomposition 2 = Inr example_communicator"
    by (rule example_ctor)
  show "length [[], [] :: pse_vector] = num_local_cells example_communicator"
    by (simp add: example_communicator_def)
  show "partition_ok (num_domains example_communicator) (gv_partition unsorted_spikes)
     (length (gv_values unsorted_spikes))"
    by (simp add: partition_ok_def example_communicator_def unsorted_spikes_def)
  show "length (matching_pairs (connection_slice example_communicator 0)
     (spike_slice unsorted_spikes 0)) = 3"
    by code_simp
  show "make_event_queues_by always_spikes example_communicator unsorted_spikes [[], []] =
     Inr [[], [\<lparr>ev_target = 0, ev_weight = 4, ev_time = Finite 16\<rparr>]]"
    by code_simp
  show "make_event_queues_by always_connections example_communicator unsorted_spikes [[], []] =
     Inl Unsorted_range"
    by code_simp
qed

section \<open>The minimum delay\<close>












section \<open>Exchange and the spike counter\<close>

lemma sorted_sort_by_source: "sorted (map source (sort_by_source xs))"
  by (simp add: sort_by_source_def)

lemma mset_sort_by_source: "mset (sort_by_source xs) = mset xs"
  by (simp add: sort_by_source_def)

lemma exchange_fst: "fst (exchange gather local_spikes c) = gather (sort_by_source local_spikes)"
  by (simp add: exchange_def Let_def)

lemma exchange_on_fst:
  assumes "me < length locals"
  shows "fst (exchange_on locals cs me) = gather_spikes (map sort_by_source locals)"
proof -
  have "(map sort_by_source locals)[me := sort_by_source (locals ! me)] = map sort_by_source locals"
    using assms by (simp add: list_update_same_conv)
  then show ?thesis by (simp add: exchange_on_def exchange_fst)
qed

lemma gather_spikes_slice:
  assumes "d < length contributions"
  shows "spike_slice (gather_spikes contributions) d = contributions ! d"
  using slice_concat [OF assms] by (simp add: spike_slice_def gather_spikes_def)

lemma gather_spikes_ok:
  assumes "\<forall>xs\<in>set contributions. sorted (map source xs)"
  shows "gathered_ok (length contributions) (gather_spikes contributions)"
proof -
  have "partition_ok (length contributions) (gv_partition (gather_spikes contributions))
      (length (gv_values (gather_spikes contributions)))"
    using partition_ok_make_index [of contributions] by (simp add: gather_spikes_def)
  moreover have "sorted (map source (spike_slice (gather_spikes contributions) d))"
    if "d < length contributions" for d
    using gather_spikes_slice [OF that] assms that by simp
  ultimately show ?thesis by (simp add: gathered_ok_def)
qed

text \<open>
  C7: \<open>exchange\<close> hands to \<open>gather_spikes\<close> the local spikes sorted by source (the same
  spikes, in non-decreasing order of the source). With a transport that returns the
  calling domain's slice as it was given, that slice of the result is sorted; and when all
  the domains enter \<open>exchange\<close>, with the transport of the spec, the slice of every domain
  in the result is that domain's spikes sorted by source. The gathered array as a whole
  need not be sorted: it is not for \<open>crossing_locals\<close>.
\<close>

theorem exchange_slices_sorted:
  assumes me: "me < length locals" and d: "d < length locals"
  shows "fst (exchange gather local_spikes c) = gather (sort_by_source local_spikes) \<and>
         sorted (map source (sort_by_source local_spikes)) \<and>
         mset (sort_by_source local_spikes) = mset local_spikes \<and>
         ((\<forall>xs. spike_slice (gather xs) me = xs) \<longrightarrow>
            sorted (map source (spike_slice (fst (exchange gather local_spikes c)) me))) \<and>
         fst (exchange_on locals cs me) = gather_spikes (map sort_by_source locals) \<and>
         spike_slice (fst (exchange_on locals cs me)) d = sort_by_source (locals ! d) \<and>
         sorted (map source (spike_slice (fst (exchange_on locals cs me)) d)) \<and>
         gathered_ok (length locals) (fst (exchange_on locals cs me)) \<and>
         \<not> sorted (map source (gv_values (fst (exchange_on crossing_locals cs 0))))"
proof -
  have a: "fst (exchange gather local_spikes c) = gather (sort_by_source local_spikes)"
    by (rule exchange_fst)
  have b: "(\<forall>xs. spike_slice (gather xs) me = xs) \<longrightarrow>
      sorted (map source (spike_slice (fst (exchange gather local_spikes c)) me))"
    by (simp add: exchange_fst sorted_sort_by_source)
  have g: "fst (exchange_on locals cs me) = gather_spikes (map sort_by_source locals)"
    using me by (rule exchange_on_fst)
  have sl: "spike_slice (fst (exchange_on locals cs me)) d = sort_by_source (locals ! d)"
    using gather_spikes_slice [of d "map sort_by_source locals"] d by (simp add: g)
  have ok: "gathered_ok (length locals) (fst (exchange_on locals cs me))"
    using gather_spikes_ok [of "map sort_by_source locals"]
    by (simp add: g sorted_sort_by_source)
  have "fst (exchange_on crossing_locals cs 0) = gather_spikes (map sort_by_source crossing_locals)"
    by (rule exchange_on_fst) (simp add: crossing_locals_def)
  then have x: "\<not> sorted (map source (gv_values (fst (exchange_on crossing_locals cs 0))))"
    by (simp add: gather_spikes_def crossing_locals_def sort_by_source_def
        less_eq_cell_member_type_def)
  show ?thesis
    using a b g sl ok x sorted_sort_by_source mset_sort_by_source by simp
qed

lemma example_exchange:
  "fst (exchange_on example_locals [example_communicator, example_communicator] 1) = example_spikes"
  by code_simp

theorem exchange_slices_sorted_witness:
  "(1::nat) < length example_locals \<and> (0::nat) < length example_locals \<and>
   fst (exchange_on example_locals [example_communicator, example_communicator] 1) = example_spikes \<and>
   spike_slice example_spikes 0 = sort_by_source (example_locals ! 0) \<and>
   sorted (map source (spike_slice example_spikes 0)) \<and>
   map source (spike_slice example_spikes 0) =
     [cell_member_type 0 0, cell_member_type 0 0, cell_member_type 1 0]"
proof -
  have me: "(1::nat) < length example_locals" and d: "(0::nat) < length example_locals"
    by (simp_all add: example_locals_def)
  note t = exchange_slices_sorted [OF me d,
      where gather = example_transport and local_spikes = "[]" and c = example_communicator
        and cs = "[example_communicator, example_communicator]"]
  have s1: "spike_slice (fst (exchange_on example_locals
      [example_communicator, example_communicator] 1)) 0 = sort_by_source (example_locals ! 0)"
    using t by blast
  have s2: "sorted (map source (spike_slice (fst (exchange_on example_locals
      [example_communicator, example_communicator] 1)) 0))"
    using t by blast
  have "spike_slice example_spikes 0 = sort_by_source (example_locals ! 0)"
    using s1 by (simp only: example_exchange)
  moreover have "sorted (map source (spike_slice example_spikes 0))"
    using s2 by (simp only: example_exchange)
  moreover have "map source (spike_slice example_spikes 0) =
     [cell_member_type 0 0, cell_member_type 0 0, cell_member_type 1 0]"
    by (simp add: spike_slice_def slice_def example_spikes_def)
  ultimately show ?thesis using me d example_exchange by blast
qed

lemma exchange_snd:
  "snd (exchange gather local_spikes c) =
     c\<lparr>num_spikes := num_spikes c +
       of_nat (length (gv_values (gather (sort_by_source local_spikes))))\<rparr>"
  by (simp add: exchange_def Let_def)

lemma exchanges_results:
  "fst (exchanges calls c) = map (\<lambda>(gather, ls). gather (sort_by_source ls)) calls"
proof (induction calls arbitrary: c)
  case Nil
  then show ?case by simp
next
  case (Cons call calls)
  obtain gather ls where call: "call = (gather, ls)" by (cases call)
  obtain g c1 where e: "exchange gather ls c = (g, c1)" by (cases "exchange gather ls c")
  obtain rest c2 where r: "exchanges calls c1 = (rest, c2)" by (cases "exchanges calls c1")
  have "g = gather (sort_by_source ls)" using exchange_fst [of gather ls c] e by simp
  moreover have "rest = map (\<lambda>(gather, ls). gather (sort_by_source ls)) calls"
    using Cons.IH [of c1] r by simp
  ultimately show ?case using call e r by simp
qed

lemma exchanges_state:
  "snd (exchanges calls c) =
     c\<lparr>num_spikes := num_spikes c + of_nat (spike_count (fst (exchanges calls c)))\<rparr>"
proof (induction calls arbitrary: c)
  case Nil
  then show ?case by (simp add: spike_count_def)
next
  case (Cons call calls)
  obtain gather ls where call: "call = (gather, ls)" by (cases call)
  obtain g c1 where e: "exchange gather ls c = (g, c1)" by (cases "exchange gather ls c")
  obtain rest c2 where r: "exchanges calls c1 = (rest, c2)" by (cases "exchanges calls c1")
  have g: "g = gather (sort_by_source ls)" using exchange_fst [of gather ls c] e by simp
  have c1: "c1 = c\<lparr>num_spikes := num_spikes c + of_nat (length (gv_values g))\<rparr>"
    using exchange_snd [of gather ls c] e g by simp
  have c2: "c2 = c1\<lparr>num_spikes := num_spikes c1 + of_nat (spike_count rest)\<rparr>"
    using Cons.IH [of c1] r by simp
  show ?case
    using call e r c1 c2 by (simp add: spike_count_def add.assoc)
qed

lemma exchanges_count_from_zero:
  assumes "num_spikes c = 0"
  shows "unat (num_spikes (snd (exchanges calls c))) = spike_count (fst (exchanges calls c)) mod 2 ^ 64"
proof -
  have "num_spikes (snd (exchanges calls c)) =
      num_spikes c + of_nat (spike_count (fst (exchanges calls c)))"
    by (subst exchanges_state) simp
  then show ?thesis using assms by (simp add: unat_of_nat)
qed

lemma spike_count_replicate:
  "spike_count (fst (exchanges (replicate k (gather, ls)) c)) =
     k * length (gv_values (gather (sort_by_source ls)))"
  by (simp add: exchanges_results spike_count_def map_replicate_const sum_list_replicate)

lemma busy_transport_size: "length (gv_values (busy_transport (sort_by_source []))) = 2 ^ 32"
  by (simp add: busy_transport_def gather_spikes_def sort_by_source_def)

text \<open>
  C8, as the code has it: \<open>num_spikes_\<close> is a \<open>std::uint64_t\<close>, so after a sequence of
  calls of \<open>exchange\<close> since the last \<open>reset\<close>, or since construction, \<open>num_spikes()\<close> is
  the sum of the sizes of the gathered arrays the calls returned modulo \<open>2^64\<close>, and the sum
  itself while that is below \<open>2^64\<close>. \<open>reset\<close> sets the counter to zero and changes
  nothing else, and \<open>exchange\<close> changes nothing but the counter.
\<close>

theorem num_spikes_counts_modulo:
  shows "unat (num_spikes (snd (exchanges calls (reset c)))) =
           spike_count (fst (exchanges calls (reset c))) mod 2 ^ 64 \<and>
         (spike_count (fst (exchanges calls (reset c))) < 2 ^ 64 \<longrightarrow>
            unat (num_spikes (snd (exchanges calls (reset c)))) =
              spike_count (fst (exchanges calls (reset c)))) \<and>
         (communicator_ctor connections_on dom_dec n = Inr c' \<longrightarrow>
            num_spikes c' = 0 \<and>
            unat (num_spikes (snd (exchanges calls c'))) =
              spike_count (fst (exchanges calls c')) mod 2 ^ 64) \<and>
         num_spikes (snd (exchanges calls c)) =
           num_spikes c + of_nat (spike_count (fst (exchanges calls c))) \<and>
         snd (exchanges calls c) = c\<lparr>num_spikes := num_spikes (snd (exchanges calls c))\<rparr> \<and>
         reset c = c\<lparr>num_spikes := 0\<rparr> \<and>
         num_spikes (reset c) = 0 \<and>
         connections (reset c) = connections c \<and>
         connection_part (reset c) = connection_part c \<and>
         index_divisions (reset c) = index_divisions c \<and>
         num_local_cells (reset c) = num_local_cells c \<and>
         num_local_groups (reset c) = num_local_groups c \<and>
         num_domains (reset c) = num_domains c"
proof -
  have st: "num_spikes (snd (exchanges calls c0)) =
      num_spikes c0 + of_nat (spike_count (fst (exchanges calls c0)))" for c0
    by (subst exchanges_state) simp
  have z: "unat (num_spikes (snd (exchanges calls c0))) =
      spike_count (fst (exchanges calls c0)) mod 2 ^ 64" if "num_spikes c0 = 0" for c0
    using st [of c0] that by (simp add: unat_of_nat)
  have r: "unat (num_spikes (snd (exchanges calls (reset c)))) =
      spike_count (fst (exchanges calls (reset c))) mod 2 ^ 64"
    by (rule z) (simp add: reset_def)
  have b: "communicator_ctor connections_on dom_dec n = Inr c' \<longrightarrow>
      num_spikes c' = 0 \<and>
      unat (num_spikes (snd (exchanges calls c'))) =
        spike_count (fst (exchanges calls c')) mod 2 ^ 64"
  proof
    assume "communicator_ctor connections_on dom_dec n = Inr c'"
    then have "c' = built_communicator connections_on dom_dec n"
      by (rule ctor_built(1))
    then have "num_spikes c' = 0"
      by (simp add: built_communicator_def)
    then show "num_spikes c' = 0 \<and>
      unat (num_spikes (snd (exchanges calls c'))) =
        spike_count (fst (exchanges calls c')) mod 2 ^ 64"
      using z by simp
  qed
  have fr: "snd (exchanges calls c) = c\<lparr>num_spikes := num_spikes (snd (exchanges calls c))\<rparr>"
    by (subst (1 2) exchanges_state) simp
  show ?thesis
    using r b st [of c] fr by (simp add: reset_def)
qed

lemma example_calls_count:
  "spike_count (fst (exchanges [(example_transport, example_locals ! 1), (example_transport, [])]
     (reset example_communicator))) = 9"
  "spike_count (fst (exchanges [(example_transport, example_locals ! 1), (example_transport, [])]
     example_communicator)) = 9"
  unfolding exchanges_results
  by (simp_all add: spike_count_def example_transport_def gather_spikes_def
      example_locals_def sort_by_source_def)

theorem num_spikes_counts_modulo_witness:
  "spike_count (fst (exchanges [(example_transport, example_locals ! 1), (example_transport, [])]
     (reset example_communicator))) = 9 \<and>
   unat (num_spikes (snd (exchanges [(example_transport, example_locals ! 1), (example_transport, [])]
     (reset example_communicator)))) = 9 \<and>
   communicator_ctor example_recipe example_decomposition 2 = Inr example_communicator \<and>
   unat (num_spikes (snd (exchanges [(example_transport, example_locals ! 1), (example_transport, [])]
     example_communicator))) = 9"
proof -
  note t = num_spikes_counts_modulo
    [where calls = "[(example_transport, example_locals ! 1), (example_transport, [])]"
      and c = example_communicator and c' = example_communicator
      and connections_on = example_recipe and dom_dec = example_decomposition and n = 2]
  have "unat (num_spikes (snd (exchanges
      [(example_transport, example_locals ! 1), (example_transport, [])]
      (reset example_communicator)))) = 9 mod 2 ^ 64"
    using t [THEN conjunct1] by (simp only: example_calls_count)
  then have r: "unat (num_spikes (snd (exchanges
      [(example_transport, example_locals ! 1), (example_transport, [])]
      (reset example_communicator)))) = 9"
    by simp
  have "unat (num_spikes (snd (exchanges
      [(example_transport, example_locals ! 1), (example_transport, [])]
      example_communicator))) = 9 mod 2 ^ 64"
    using t [THEN conjunct2, THEN conjunct2, THEN conjunct1, THEN mp, OF example_ctor,
        THEN conjunct2]
    by (simp only: example_calls_count)
  then have "unat (num_spikes (snd (exchanges
      [(example_transport, example_locals ! 1), (example_transport, [])]
      example_communicator))) = 9"
    by simp
  with r have "unat (num_spikes (snd (exchanges
      [(example_transport, example_locals ! 1), (example_transport, [])]
      (reset example_communicator)))) = 9 \<and>
    unat (num_spikes (snd (exchanges
      [(example_transport, example_locals ! 1), (example_transport, [])]
      example_communicator))) = 9"
    by blast
  then show ?thesis using example_calls_count(1) example_ctor by blast
qed

theorem num_spikes_wraps_counterexample:
  "spike_count (fst (exchanges (replicate (2 ^ 32) (busy_transport, []))
     (reset example_communicator))) = 2 ^ 64 \<and>
   unat (num_spikes (snd (exchanges (replicate (2 ^ 32) (busy_transport, []))
     (reset example_communicator)))) = 0 \<and>
   unat (num_spikes (snd (exchanges (replicate (2 ^ 32) (busy_transport, []))
     (reset example_communicator)))) \<noteq>
   spike_count (fst (exchanges (replicate (2 ^ 32) (busy_transport, []))
     (reset example_communicator)))"
proof -
  have cnt: "spike_count (fst (exchanges (replicate (2 ^ 32) (busy_transport, []))
      (reset example_communicator))) = 2 ^ 64"
    by (simp only: spike_count_replicate busy_transport_size) simp
  have "num_spikes (reset example_communicator) = 0" by (simp add: reset_def)
  then have "unat (num_spikes (snd (exchanges (replicate (2 ^ 32) (busy_transport, []))
      (reset example_communicator)))) = 2 ^ 64 mod 2 ^ 64"
    using exchanges_count_from_zero [of "reset example_communicator"
        "replicate (2 ^ 32) (busy_transport, [])"]
    by (simp only: cnt)
  then have z: "unat (num_spikes (snd (exchanges (replicate (2 ^ 32) (busy_transport, []))
      (reset example_communicator)))) = 0"
    by simp
  show ?thesis using cnt z by simp
qed

end
